theory Spec2Isabelle
  imports Complex_Main "HOL-Library.AList"
begin

section \<open>JavaScript values\<close>

text \<open>
  Numbers keep the three values on which JavaScript's equalities disagree as separate
  constructors: \<open>NaN\<close>, negative zero (\<open>NegZero\<close>) and positive zero (\<open>Fin 0\<close>).
  Every other finite number is \<open>Fin r\<close> with \<open>r \<noteq> 0\<close>. Equality of this type is
  therefore the language's SameValue comparison (\<open>Object.is\<close>); strict equality
  (\<open>===\<close>) is the separate function \<open>strict_eq_num\<close>.
\<close>

datatype jsnum = NaN | PosInf | NegInf | NegZero | Fin rat

text \<open>
  \<open>AnySym\<close> is the exported \<open>ANY\<close> symbol, \<open>Sym n\<close> any other symbol, \<open>Fn n\<close> a
  function value (its behaviour is given by the environment that calls it). An object is
  the list of its own enumerable properties in the order \<open>for ... in\<close> visits them.
\<close>

datatype jsval =
    Undefined
  | Null
  | Bool bool
  | Num jsnum
  | Str string
  | AnySym
  | Sym nat
  | Fn nat
  | Arr "jsval list"
  | Obj "(string \<times> jsval) list"

type_synonym jsobj = "(string \<times> jsval) list"

definition startsWith :: "string \<Rightarrow> string \<Rightarrow> bool" where
  "startsWith s pre = (take (length pre) s = pre)"

text \<open>Truthiness (\<open>!!v\<close>).\<close>

fun truthy :: "jsval \<Rightarrow> bool" where
  "truthy Undefined = False"
| "truthy Null = False"
| "truthy (Bool b) = b"
| "truthy (Num NaN) = False"
| "truthy (Num NegZero) = False"
| "truthy (Num (Fin r)) = (r \<noteq> 0)"
| "truthy (Num PosInf) = True"
| "truthy (Num NegInf) = True"
| "truthy (Str s) = (s \<noteq> [])"
| "truthy AnySym = True"
| "truthy (Sym n) = True"
| "truthy (Fn n) = True"
| "truthy (Arr xs) = True"
| "truthy (Obj kvs) = True"

text \<open>\<open>obj[key]\<close> on a binding object or a plain object: absent keys read as \<open>undefined\<close>.\<close>

definition getProp :: "jsobj \<Rightarrow> string \<Rightarrow> jsval" where
  "getProp obj k = (case map_of obj k of None \<Rightarrow> Undefined | Some v \<Rightarrow> v)"

text \<open>\<open>obj[key] = v\<close>: an existing key keeps its place, a new key is appended.\<close>

definition setProp :: "jsobj \<Rightarrow> string \<Rightarrow> jsval \<Rightarrow> jsobj" where
  "setProp obj k v = AList.update k v obj"

text \<open>
  Array indices as property names: the canonical decimal numeral of the index.
\<close>

definition digit_of :: "char \<Rightarrow> nat option" where
  "digit_of c = (let n = of_char c :: nat in if 48 \<le> n \<and> n \<le> 57 then Some (n - 48) else None)"

fun index_of_digits :: "nat \<Rightarrow> string \<Rightarrow> nat option" where
  "index_of_digits acc [] = Some acc"
| "index_of_digits acc (c # cs) =
     (case digit_of c of None \<Rightarrow> None | Some d \<Rightarrow> index_of_digits (10 * acc + d) cs)"

definition arrayIndex :: "string \<Rightarrow> nat option" where
  "arrayIndex k =
     (if k = [] then None
      else if hd k = CHR ''0'' \<and> tl k \<noteq> [] then None
      else index_of_digits 0 k)"

text \<open>
  \<open>Object.prototype.hasOwnProperty.call(fact, key)\<close> together with \<open>fact[key]\<close>, for a
  fact that passed \<open>typeof fact === 'object' && fact !== null\<close>: a plain object or an
  array (whose own properties are its indices and \<open>length\<close>). \<open>None\<close> is "no own property".
\<close>

fun ownProp :: "jsval \<Rightarrow> string \<Rightarrow> jsval option" where
  "ownProp (Obj kvs) k = map_of kvs k"
| "ownProp (Arr xs) k =
     (if k = ''length'' then Some (Num (Fin (of_nat (length xs))))
      else (case arrayIndex k of
              None \<Rightarrow> None
            | Some i \<Rightarrow> if i < length xs then Some (xs ! i) else None))"
| "ownProp v k = None"

section \<open>The pattern matcher (AdvancedMatcher.match)\<close>

record mres =
  isMatch :: bool
  bindings :: jsobj

definition isVar :: "jsval \<Rightarrow> bool" where
  "isVar p = (case p of Str s \<Rightarrow> startsWith s ''?'' | _ \<Rightarrow> False)"

definition isRest :: "jsval \<Rightarrow> bool" where
  "isRest p = (case p of Str s \<Rightarrow> startsWith s ''...'' | _ \<Rightarrow> False)"

text \<open>\<open>pattern.findIndex(isRest)\<close>; \<open>None\<close> stands for \<open>-1\<close>.\<close>

fun findIndex :: "('a \<Rightarrow> bool) \<Rightarrow> 'a list \<Rightarrow> nat option" where
  "findIndex P [] = None"
| "findIndex P (x # xs) =
     (if P x then Some 0 else map_option Suc (findIndex P xs))"

text \<open>
  The element loops of the array branches: match the patterns one by one against the
  facts at the same positions, threading the bindings, and stop at the first failure with
  the bindings that failure returned. \<open>m\<close> is the recursive call; \<open>None\<close> is a call that
  did not return. A read past the end of the fact array yields \<open>undefined\<close>.
\<close>

fun matchElems ::
  "(jsval \<Rightarrow> jsval \<Rightarrow> jsobj \<Rightarrow> mres option) \<Rightarrow> jsval list \<Rightarrow> jsval list \<Rightarrow> jsobj \<Rightarrow> mres option"
where
  "matchElems m [] fs cur = Some \<lparr>isMatch = True, bindings = cur\<rparr>"
| "matchElems m (p # ps) fs cur =
     (case m p (case fs of [] \<Rightarrow> Undefined | f # _ \<Rightarrow> f) cur of
        None \<Rightarrow> None
      | Some r \<Rightarrow>
          if \<not> isMatch r then Some \<lparr>isMatch = False, bindings = bindings r\<rparr>
          else matchElems m ps (tl fs) (bindings r))"

text \<open>The property loop of the object branch.\<close>

fun matchProps ::
  "(jsval \<Rightarrow> jsval \<Rightarrow> jsobj \<Rightarrow> mres option) \<Rightarrow> jsobj \<Rightarrow> jsval \<Rightarrow> jsobj \<Rightarrow> mres option"
where
  "matchProps m [] fct cur = Some \<lparr>isMatch = True, bindings = cur\<rparr>"
| "matchProps m ((k, p) # kps) fct cur =
     (case ownProp fct k of
        None \<Rightarrow> Some \<lparr>isMatch = False, bindings = cur\<rparr>
      | Some f \<Rightarrow>
          (case m p f cur of
             None \<Rightarrow> None
           | Some r \<Rightarrow>
               if \<not> isMatch r then Some \<lparr>isMatch = False, bindings = bindings r\<rparr>
               else matchProps m kps fct (bindings r)))"

text \<open>
  \<open>match\<close> recurses on the bound value of a variable, which is not a part of the
  pattern, so the recursion is not structural and need not end (bindings
  \<open>{'?x': '?x'}\<close> send \<open>match('?x', v, b)\<close> into itself until the call stack is
  exhausted). The first argument bounds the depth of nested calls; \<open>None\<close> is the call
  that exceeds it. \<open>call n v\<close> is the result of applying function \<open>n\<close> to \<open>v\<close>, or
  \<open>None\<close> when it throws.
\<close>

primrec match ::
  "(nat \<Rightarrow> jsval \<Rightarrow> jsval option) \<Rightarrow> nat \<Rightarrow> jsval \<Rightarrow> jsval \<Rightarrow> jsobj \<Rightarrow> mres option"
where
  "match call 0 pattern fct b = None"
| "match call (Suc d) pattern fct b =
     (if pattern = AnySym then Some \<lparr>isMatch = True, bindings = b\<rparr>
      else case pattern of
        Fn n \<Rightarrow>
          (case call n fct of
             Some v \<Rightarrow> Some \<lparr>isMatch = truthy v, bindings = b\<rparr>
           | None \<Rightarrow> Some \<lparr>isMatch = False, bindings = b\<rparr>)
      | Str s \<Rightarrow>
          if startsWith s ''?'' then
            (let boundValue = getProp b s in
             if boundValue \<noteq> Undefined then match call d boundValue fct b
             else Some \<lparr>isMatch = True, bindings = setProp b s fct\<rparr>)
          else Some \<lparr>isMatch = (pattern = fct), bindings = b\<rparr>
      | Arr ps \<Rightarrow>
          (case fct of
             Arr fs \<Rightarrow>
               (case findIndex isRest ps of
                  Some restOperatorIndex \<Rightarrow>
                    if length (filter isRest ps) > 1
                    then Some \<lparr>isMatch = False, bindings = b\<rparr>
                    else
                      (let headPattern = take restOperatorIndex ps;
                           tailPattern = drop (restOperatorIndex + 1) ps;
                           restVariableName = (case ps ! restOperatorIndex of Str s \<Rightarrow> s | _ \<Rightarrow> [])
                       in
                       if length fs < length headPattern + length tailPattern
                       then Some \<lparr>isMatch = False, bindings = b\<rparr>
                       else
                         (case matchElems (match call d) headPattern fs b of
                            None \<Rightarrow> None
                          | Some rh \<Rightarrow>
                              if \<not> isMatch rh then Some rh
                              else
                                (case matchElems (match call d) tailPattern
                                        (drop (length fs - length tailPattern) fs) (bindings rh) of
                                   None \<Rightarrow> None
                                 | Some rt \<Rightarrow>
                                     if \<not> isMatch rt then Some rt
                                     else Some \<lparr>isMatch = True,
                                       bindings = setProp (bindings rt) (drop 3 restVariableName)
                                         (Arr (take (length fs - length tailPattern - length headPattern)
                                                 (drop (length headPattern) fs)))\<rparr>)))
                | None \<Rightarrow>
                    if length ps \<noteq> length fs then Some \<lparr>isMatch = False, bindings = b\<rparr>
                    else matchElems (match call d) ps fs b)
           | _ \<Rightarrow> Some \<lparr>isMatch = False, bindings = b\<rparr>)
      | Obj kps \<Rightarrow>
          (case fct of
             Obj _ \<Rightarrow> matchProps (match call d) kps fct b
           | Arr _ \<Rightarrow> matchProps (match call d) kps fct b
           | _ \<Rightarrow> Some \<lparr>isMatch = False, bindings = b\<rparr>)
      | _ \<Rightarrow> Some \<lparr>isMatch = (pattern = fct), bindings = b\<rparr>)"

text \<open>
  The patterns that reach the last branch of \<open>match\<close>: everything that is not the
  wildcard, a function, a variable reference, an array or an object.
\<close>

definition isLiteral :: "jsval \<Rightarrow> bool" where
  "isLiteral p =
     (case p of
        AnySym \<Rightarrow> False | Fn _ \<Rightarrow> False | Arr _ \<Rightarrow> False | Obj _ \<Rightarrow> False
      | Str s \<Rightarrow> \<not> startsWith s ''?''
      | _ \<Rightarrow> True)"

text \<open>
  The language's two equalities on numbers and SameValue on primitives, written out from
  their definitions: \<open>===\<close> makes \<open>NaN\<close> unequal to itself and identifies the two zeros;
  SameValue (\<open>Object.is\<close>) does the opposite on exactly these values.
\<close>

definition strict_eq_num :: "jsnum \<Rightarrow> jsnum \<Rightarrow> bool" where
  "strict_eq_num x y =
     (x \<noteq> NaN \<and> y \<noteq> NaN \<and>
      (x = y \<or> (x = Fin 0 \<and> y = NegZero) \<or> (x = NegZero \<and> y = Fin 0)))"

definition sameValue :: "jsval \<Rightarrow> jsval \<Rightarrow> bool" where
  "sameValue p f =
     (case p of
        Undefined \<Rightarrow> f = Undefined
      | Null \<Rightarrow> f = Null
      | Bool a \<Rightarrow> f = Bool a
      | Str a \<Rightarrow> f = Str a
      | AnySym \<Rightarrow> f = AnySym
      | Sym a \<Rightarrow> f = Sym a
      | Num x \<Rightarrow>
          (case f of
             Num y \<Rightarrow>
               if x = NaN \<and> y = NaN then True
               else if x = Fin 0 \<and> y = NegZero then False
               else if x = NegZero \<and> y = Fin 0 then False
               else strict_eq_num x y
           | _ \<Rightarrow> False)
      | _ \<Rightarrow> False)"

section \<open>Engine data\<close>

text \<open>
  A stored fact is an object with its \<open>_id\<close>; an entry pairs it with its metadata object.
  \<open>facts\<close> is the store's map from identity to entry and \<open>alphaNetwork\<close> its index from
  type to the facts of that type, both in insertion order, as the source's maps
  iterate.
\<close>

record factEntry =
  efact :: jsobj
  metadata :: jsobj

record factStorage =
  factIdCounter :: nat
  facts :: "(nat \<times> factEntry) list"
  alphaNetwork :: "(string \<times> (nat \<times> jsobj) list) list"

text \<open>Agenda tasks \<open>{type: 'assert' | 'retract', fact}\<close>.\<close>

datatype task = AssertTask jsobj | RetractTask jsobj

text \<open>
  An emitted event: its name and the main fields of its data. Message texts and
  timestamps are left out.
\<close>

datatype event = Event string "jsval list"

text \<open>
  The three kinds of condition of a \<open>when\<close> list: \<open>{_isLacksCondition, pattern}\<close>,
  \<open>{_isAccumulator, from, accumulate, on, into}\<close>, and a pattern object with its guards
  (\<open>[patternObject, ...guards]\<close>, or the bare pattern object).
\<close>

datatype condition =
    Lacks jsobj
  | Accumulator jsobj string jsval string
  | Pattern jsobj "jsval list"

text \<open>
  What a rule's action does to the engine, as the calls it makes on the context object it
  is given: \<open>assertFact(fact, {logical})\<close>, \<open>modifyFact(id, updates)\<close> (\<open>updateFact\<close>
  is \<open>modifyFact\<close> with computed updates), \<open>retractRule(id)\<close>, \<open>retractWhere(pattern)\<close> and
  \<open>publish(topic, payload)\<close>. The action is a function of the bindings of its activation.
  Rules that add rules, and the hooks \<open>around\<close>, \<open>after\<close>, \<open>throws\<close>, \<open>post\<close> and \<open>log\<close>
  are outside the model: its rules have none.
\<close>

datatype command =
    AssertFact jsobj bool
  | ModifyFact nat jsobj
  | RetractRule string
  | RetractWhere jsval
  | Publish string jsval

record rule =
  rid :: string
  rtype :: jsval
  salience :: jsval
  rwhen :: "condition list"
  pre :: "jsval list"
  action :: "jsobj \<Rightarrow> command list"

record activation =
  rule :: rule
  abindings :: jsobj
  consumedFactIds :: "nat set"

text \<open>The truth-maintenance record of a fired activation.\<close>

record tracked =
  t_ruleId :: string
  t_consumed :: "nat set"
  t_produced :: "nat list"

record engine =
  storage :: factStorage
  agenda :: "task list"
  definitions :: "(string \<times> rule) list"
  activations :: "(nat \<times> tracked) list"
  activationCounter :: nat
  emitted :: "event list"



section \<open>Conflict resolution (SalienceConflictResolver.resolve)\<close>

text \<open>
  Numeric order (\<open><\<close> on numbers) and \<open>Math.max\<close>: \<open>NaN\<close> compares with nothing and, once
  among the arguments, is the result of \<open>Math.max\<close>; the two zeros are equal under \<open><\<close>.
\<close>

definition finVal :: "jsnum \<Rightarrow> rat" where
  "finVal x = (case x of Fin r \<Rightarrow> r | _ \<Rightarrow> 0)"

definition numLess :: "jsnum \<Rightarrow> jsnum \<Rightarrow> bool" where
  "numLess x y =
     (x \<noteq> NaN \<and> y \<noteq> NaN \<and> x \<noteq> PosInf \<and> y \<noteq> NegInf \<and>
      (x = NegInf \<or> y = PosInf \<or> finVal x < finVal y))"

definition mathMax2 :: "jsnum \<Rightarrow> jsnum \<Rightarrow> jsnum" where
  "mathMax2 x y =
     (if x = NaN \<or> y = NaN then NaN
      else if numLess x y then y
      else if numLess y x then x
      else if x = NegZero then y else x)"

definition mathMax :: "jsnum list \<Rightarrow> jsnum" where
  "mathMax xs = foldl mathMax2 NegInf xs"

text \<open>
  The groups are the properties of an object keyed by the salience converted to a string.
  The conversion is one-to-one on numbers except that both zeros give \<open>"0"\<close>, so a key is
  represented by the number \<open>Number(key)\<close> it converts back to.
\<close>

definition propertyKey :: "jsnum \<Rightarrow> jsnum" where
  "propertyKey x = (if x = NegZero then Fin 0 else x)"

definition salienceOf :: "activation \<Rightarrow> jsnum" where
  "salienceOf a = (case salience (rule a) of Num x \<Rightarrow> x | _ \<Rightarrow> Fin 0)"

definition addToGroup ::
  "(jsnum \<times> activation list) list \<Rightarrow> activation \<Rightarrow> (jsnum \<times> activation list) list" where
  "addToGroup groups a =
     (let k = propertyKey (salienceOf a) in
      case map_of groups k of
        None \<Rightarrow> groups @ [(k, [a])]
      | Some g \<Rightarrow> AList.update k (g @ [a]) groups)"

text \<open>
  An absent or non-number \<open>salience\<close> counts as 0; \<open>typeof\<close> accepts every number,
  \<open>NaN\<close> and the infinities included.
\<close>
text \<open>
  \<open>resolve\<close>. The last case, a missing or empty group for the highest key, is where the
  source would throw on \<open>undefined[0]\<close>; \<open>resolve_highest_first\<close> shows it is not reached
  when no salience is \<open>NaN\<close>.
\<close>

fun resolve :: "activation list \<Rightarrow> activation option" where
  "resolve [] = None"
| "resolve [a] = Some a"
| "resolve acts =
     (let groupedBySalience = foldl addToGroup [] acts;
          salienceLevels = map fst groupedBySalience;
          highestSalience = mathMax salienceLevels
      in case map_of groupedBySalience (propertyKey highestSalience) of
           Some (a # _) \<Rightarrow> Some a
         | _ \<Rightarrow> None)"


text \<open>An activation with the given rule identity and salience, for the examples.\<close>

definition act :: "string \<Rightarrow> jsval \<Rightarrow> activation" where
  "act i s =
     \<lparr>rule = \<lparr>rid = i, rtype = Undefined, salience = s, rwhen = [], pre = [], action = (\<lambda>b. [])\<rparr>,
      abindings = [], consumedFactIds = {}\<rparr>"

section \<open>The fact store (FactStorage)\<close>

text \<open>An identity as the number stored in \<open>_id\<close>.\<close>

definition idValue :: "nat \<Rightarrow> jsval" where
  "idValue n = Num (Fin (of_nat n))"

definition getFactsByType :: "factStorage \<Rightarrow> jsval \<Rightarrow> jsobj list" where
  "getFactsByType st ty =
     (case ty of
        Str s \<Rightarrow> (case map_of (alphaNetwork st) s of None \<Rightarrow> [] | Some idx \<Rightarrow> map snd idx)
      | _ \<Rightarrow> [])"





section \<open>Asserting and retracting through the engine (LeapEngine)\<close>






section \<open>Ordering query results (LeapEngine.queryAll, orderBy)\<close>

text \<open>\<open>key.split('.')\<close>.\<close>

fun splitDot :: "string \<Rightarrow> string list" where
  "splitDot [] = [[]]"
| "splitDot (c # cs) =
     (if c = CHR ''.'' then [] # splitDot cs
      else (case splitDot cs of [] \<Rightarrow> [[c]] | w # ws \<Rightarrow> (c # w) # ws))"

text \<open>
  \<open>obj && typeof obj === 'object'\<close>, and \<open>obj[key]\<close> on such a value (own properties; an
  absent one reads as \<open>undefined\<close>).
\<close>

definition isObjectLike :: "jsval \<Rightarrow> bool" where
  "isObjectLike v = (case v of Obj _ \<Rightarrow> True | Arr _ \<Rightarrow> True | _ \<Rightarrow> False)"

definition readProp :: "jsval \<Rightarrow> string \<Rightarrow> jsval" where
  "readProp v k = (case ownProp v k of None \<Rightarrow> Undefined | Some x \<Rightarrow> x)"

text \<open>
  \<open>obj[key]\<close> with the prototype chain: a key that is not an own property is read from
  the prototype, \<open>proto obj key\<close>, which is \<open>undefined\<close> for a key no prototype has.
\<close>

definition lookupProp :: "(jsval \<Rightarrow> string \<Rightarrow> jsval) \<Rightarrow> jsval \<Rightarrow> string \<Rightarrow> jsval" where
  "lookupProp proto v k = (case ownProp v k of None \<Rightarrow> proto v k | Some x \<Rightarrow> x)"

text \<open>\<open>#resolvePath(object, pathArray)\<close>: a \<open>reduce\<close> over the keys.\<close>

definition resolveStep :: "(jsval \<Rightarrow> string \<Rightarrow> jsval) \<Rightarrow> jsval \<Rightarrow> string \<Rightarrow> jsval" where
  "resolveStep proto obj key =
     (if isObjectLike obj \<and> startsWith key ''?'' then lookupProp proto obj key
      else if isObjectLike obj \<and> lookupProp proto obj key \<noteq> Undefined then lookupProp proto obj key
      else Undefined)"

definition resolvePath :: "(jsval \<Rightarrow> string \<Rightarrow> jsval) \<Rightarrow> jsval \<Rightarrow> string list \<Rightarrow> jsval" where
  "resolvePath proto object pathArray = foldl (resolveStep proto) object pathArray"

text \<open>
  Strict equality \<open>===\<close>. On arrays and objects it is identity of reference, which a value
  does not carry: \<open>refEq\<close> answers it.
\<close>

definition strictEq :: "(jsval \<Rightarrow> jsval \<Rightarrow> bool) \<Rightarrow> jsval \<Rightarrow> jsval \<Rightarrow> bool" where
  "strictEq refEq a b =
     (case a of
        Num x \<Rightarrow> (case b of Num y \<Rightarrow> strict_eq_num x y | _ \<Rightarrow> False)
      | Arr _ \<Rightarrow> (case b of Arr _ \<Rightarrow> refEq a b | _ \<Rightarrow> False)
      | Obj _ \<Rightarrow> (case b of Obj _ \<Rightarrow> refEq a b | _ \<Rightarrow> False)
      | _ \<Rightarrow> a = b)"

text \<open>
  The comparator handed to \<open>sort\<close>. \<open>lt\<close> is the language's \<open><\<close> on two key values
  (\<open>a > b\<close> is \<open>b < a\<close>); \<open>direction\<close> is \<open>Undefined\<close> when the query gives none.
\<close>

definition compareRows ::
  "(jsval \<Rightarrow> string \<Rightarrow> jsval) \<Rightarrow> (jsval \<Rightarrow> jsval \<Rightarrow> bool) \<Rightarrow> (jsval \<Rightarrow> jsval \<Rightarrow> bool) \<Rightarrow>
   string \<Rightarrow> jsval \<Rightarrow> jsval \<Rightarrow> jsval \<Rightarrow> int"
where
  "compareRows proto refEq lt key direction0 a b =
     (let direction = (if direction0 = Undefined then Str ''asc'' else direction0);
          valA = resolvePath proto a (splitDot key);
          valB = resolvePath proto b (splitDot key)
      in if valA = Undefined \<and> valB \<noteq> Undefined then (if direction = Str ''asc'' then 1 else -1)
         else if valA \<noteq> Undefined \<and> valB = Undefined then (if direction = Str ''asc'' then -1 else 1)
         else if strictEq refEq valA valB then 0
         else if lt valA valB then (if direction = Str ''asc'' then -1 else 1)
         else if lt valB valA then (if direction = Str ''asc'' then 1 else -1)
         else 0)"

text \<open>
  \<open>Array.prototype.sort(compare)\<close>. The language fixes the result for a comparator that
  is consistent on the elements: every element compares equal to itself, comparing equal
  is symmetric and transitive, and comparing less and comparing greater are transitive.
\<close>

definition consistentOn :: "('a \<Rightarrow> 'a \<Rightarrow> int) \<Rightarrow> 'a list \<Rightarrow> bool" where
  "consistentOn cmp xs =
     (\<forall>a\<in>set xs. cmp a a = 0 \<and>
        (\<forall>b\<in>set xs. (cmp a b = 0 \<longrightarrow> cmp b a = 0) \<and>
           (\<forall>c\<in>set xs. (cmp a b = 0 \<and> cmp b c = 0 \<longrightarrow> cmp a c = 0)
                        \<and> (cmp a b < 0 \<and> cmp b c < 0 \<longrightarrow> cmp a c < 0)
                        \<and> (0 < cmp a b \<and> 0 < cmp b c \<longrightarrow> 0 < cmp a c))))"

text \<open>
  For such a comparator the result is the elements in the order of the comparator, those
  that compare equal in their input order (the sort is stable). The stable insertion sort
  computes it: each element in turn moves left past the elements that compare greater
  than it; \<open>racc\<close> is the sorted prefix, last element first. For a comparator that is not
  consistent, as with a \<open>NaN\<close> key among numbers, the language leaves the order to the
  implementation: \<open>None\<close>.
\<close>

definition sortStep :: "('a \<Rightarrow> 'a \<Rightarrow> int) \<Rightarrow> 'a list \<Rightarrow> 'a \<Rightarrow> 'a list" where
  "sortStep cmp racc x =
     takeWhile (\<lambda>y. 0 < cmp y x) racc @ x # dropWhile (\<lambda>y. 0 < cmp y x) racc"

definition stableSort :: "('a \<Rightarrow> 'a \<Rightarrow> int) \<Rightarrow> 'a list \<Rightarrow> 'a list" where
  "stableSort cmp xs = rev (foldl (sortStep cmp) [] xs)"

definition jsSort :: "('a \<Rightarrow> 'a \<Rightarrow> int) \<Rightarrow> 'a list \<Rightarrow> 'a list option" where
  "jsSort cmp xs = (if consistentOn cmp xs then Some (stableSort cmp xs) else None)"

text \<open>The rows after \<open>sort\<close>, the sort key of a row, and whether a row has one.\<close>

definition orderRows ::
  "(jsval \<Rightarrow> string \<Rightarrow> jsval) \<Rightarrow> (jsval \<Rightarrow> jsval \<Rightarrow> bool) \<Rightarrow> (jsval \<Rightarrow> jsval \<Rightarrow> bool) \<Rightarrow>
   string \<Rightarrow> jsval \<Rightarrow> jsval list \<Rightarrow> jsval list option"
where
  "orderRows proto refEq lt key direction rows =
     jsSort (compareRows proto refEq lt key direction) rows"

definition sortKey :: "(jsval \<Rightarrow> string \<Rightarrow> jsval) \<Rightarrow> string \<Rightarrow> jsval \<Rightarrow> jsval" where
  "sortKey proto key row = resolvePath proto row (splitDot key)"

definition hasSortKey :: "(jsval \<Rightarrow> string \<Rightarrow> jsval) \<Rightarrow> string \<Rightarrow> jsval \<Rightarrow> bool" where
  "hasSortKey proto key row = (sortKey proto key row \<noteq> Undefined)"

text \<open>
  The language's \<open><\<close> is a strict weak order on the values \<open>ks\<close>, and \<open>===\<close> holds only
  between values that \<open><\<close> does not separate, as on numbers without \<open>NaN\<close> and on strings.
\<close>

definition keyOrderOn :: "(jsval \<Rightarrow> jsval \<Rightarrow> bool) \<Rightarrow> (jsval \<Rightarrow> jsval \<Rightarrow> bool) \<Rightarrow> jsval list \<Rightarrow> bool" where
  "keyOrderOn refEq lt ks =
     (\<forall>a\<in>set ks. \<not> lt a a \<and>
        (\<forall>b\<in>set ks. (strictEq refEq a b \<longrightarrow> \<not> lt a b \<and> \<not> lt b a) \<and>
           (\<forall>c\<in>set ks. (lt a b \<and> lt b c \<longrightarrow> lt a c)
                        \<and> (\<not> lt a b \<and> \<not> lt b a \<and> \<not> lt b c \<and> \<not> lt c b \<longrightarrow> \<not> lt a c \<and> \<not> lt c a))))"

text \<open>The defined sort keys of the rows.\<close>

definition definedKeys :: "(jsval \<Rightarrow> string \<Rightarrow> jsval) \<Rightarrow> string \<Rightarrow> jsval list \<Rightarrow> jsval list" where
  "definedKeys proto key rows = filter (\<lambda>v. v \<noteq> Undefined) (map (sortKey proto key) rows)"

text \<open>The language's \<open><\<close> where both values are numbers, for the examples.\<close>

definition lessOnNumbers :: "jsval \<Rightarrow> jsval \<Rightarrow> bool" where
  "lessOnNumbers a b =
     (case a of Num x \<Rightarrow> (case b of Num y \<Rightarrow> numLess x y | _ \<Rightarrow> False) | _ \<Rightarrow> False)"

text \<open>A list that is a run of elements with \<open>Q\<close> followed by a run of elements without.\<close>

definition splitBy :: "('a \<Rightarrow> bool) \<Rightarrow> 'a list \<Rightarrow> bool" where
  "splitBy Q xs = (\<exists>F B. xs = F @ B \<and> (\<forall>y\<in>set F. Q y) \<and> (\<forall>y\<in>set B. \<not> Q y))"

text \<open>Rows whose keys no prototype has: every property read is an own property.\<close>

definition ownOnly :: "jsval \<Rightarrow> string \<Rightarrow> jsval" where
  "ownOnly v k = Undefined"

text \<open>
  Four rows \<open>{val, n}\<close> for the examples: \<open>val\<close> is 10, \<open>undefined\<close>, 5 and 10 again, \<open>n\<close>
  numbers them in input order.
\<close>

definition scoreRow :: "jsval \<Rightarrow> nat \<Rightarrow> jsval" where
  "scoreRow v n = Obj [(''val'', v), (''n'', Num (Fin (of_nat n)))]"

definition scoreRows :: "jsval list" where
  "scoreRows = [scoreRow (Num (Fin 10)) 1, scoreRow Undefined 2, scoreRow (Num (Fin 5)) 3,
                scoreRow (Num (Fin 10)) 4]"

section \<open>The guard evaluator (LeapEngine executeGuard)\<close>

text \<open>
  What the evaluator asks of the host language beyond the value itself: the result of
  calling a function value (\<open>None\<close> when it throws), the conversion of a value to a string,
  identity of reference for \<open>===\<close> on objects, the \<open>length\<close> of a function, and the
  rounding of double precision: \<open>hround h r\<close> is the number the language has for the exact
  non-zero result \<open>r\<close> of an operation (the nearest double, an infinity beyond the range, a
  zero below it).
\<close>

record host =
  hcall :: "nat \<Rightarrow> jsval \<Rightarrow> jsval option"
  htoStr :: "jsval \<Rightarrow> string"
  hrefEq :: "jsval \<Rightarrow> jsval \<Rightarrow> bool"
  hfnLength :: "nat \<Rightarrow> nat"
  hround :: "rat \<Rightarrow> jsnum"

datatype jserror = TypeError string | Error string | RangeError string | Thrown

type_synonym gres = "event list \<times> (jserror + jsval)"

text \<open>
  Arithmetic on numbers. The exact result of an operation on finite numbers is rounded by
  the host; an exact zero is not rounded. Infinities, \<open>NaN\<close> and the sign of zero follow
  the language.
\<close>

definition isInf :: "jsnum \<Rightarrow> bool" where
  "isInf x = (x = PosInf \<or> x = NegInf)"

definition isZero :: "jsnum \<Rightarrow> bool" where
  "isZero x = (x = NegZero \<or> x = Fin 0)"

definition isNegative :: "jsnum \<Rightarrow> bool" where
  "isNegative x = (case x of NegInf \<Rightarrow> True | NegZero \<Rightarrow> True | Fin r \<Rightarrow> r < 0 | _ \<Rightarrow> False)"

definition numLe :: "jsnum \<Rightarrow> jsnum \<Rightarrow> bool" where
  "numLe x y = (x \<noteq> NaN \<and> y \<noteq> NaN \<and> \<not> numLess y x)"

definition numNeg :: "jsnum \<Rightarrow> jsnum" where
  "numNeg x =
     (case x of
        NaN \<Rightarrow> NaN | PosInf \<Rightarrow> NegInf | NegInf \<Rightarrow> PosInf | NegZero \<Rightarrow> Fin 0
      | Fin r \<Rightarrow> if r = 0 then NegZero else Fin (- r))"

definition numAdd :: "host \<Rightarrow> jsnum \<Rightarrow> jsnum \<Rightarrow> jsnum" where
  "numAdd h x y =
     (if x = NaN \<or> y = NaN then NaN
      else if x = PosInf then (if y = NegInf then NaN else PosInf)
      else if x = NegInf then (if y = PosInf then NaN else NegInf)
      else if y = PosInf then PosInf
      else if y = NegInf then NegInf
      else if x = NegZero \<and> y = NegZero then NegZero
      else if finVal x + finVal y = 0 then Fin 0
      else hround h (finVal x + finVal y))"

definition numSub :: "host \<Rightarrow> jsnum \<Rightarrow> jsnum \<Rightarrow> jsnum" where
  "numSub h x y = numAdd h x (numNeg y)"

definition numMul :: "host \<Rightarrow> jsnum \<Rightarrow> jsnum \<Rightarrow> jsnum" where
  "numMul h x y =
     (if x = NaN \<or> y = NaN then NaN
      else if isInf x \<or> isInf y then
        (if isZero x \<or> isZero y then NaN
         else if isNegative x \<noteq> isNegative y then NegInf else PosInf)
      else if finVal x * finVal y = 0 then
        (if isNegative x \<noteq> isNegative y then NegZero else Fin 0)
      else hround h (finVal x * finVal y))"

definition numDiv :: "host \<Rightarrow> jsnum \<Rightarrow> jsnum \<Rightarrow> jsnum" where
  "numDiv h x y =
     (if x = NaN \<or> y = NaN then NaN
      else if isInf x then
        (if isInf y then NaN else if isNegative x \<noteq> isNegative y then NegInf else PosInf)
      else if isInf y then (if isNegative x \<noteq> isNegative y then NegZero else Fin 0)
      else if isZero y then
        (if isZero x then NaN else if isNegative x \<noteq> isNegative y then NegInf else PosInf)
      else if finVal x = 0 then (if isNegative x \<noteq> isNegative y then NegZero else Fin 0)
      else hround h (finVal x / finVal y))"

text \<open>Results of guard evaluation: the events emitted, then the value or the error thrown.\<close>

definition bindG :: "gres \<Rightarrow> (jsval \<Rightarrow> gres) \<Rightarrow> gres" where
  "bindG r f =
     (case snd r of
        Inl e \<Rightarrow> (fst r, Inl e)
      | Inr v \<Rightarrow> (fst r @ fst (f v), snd (f v)))"

text \<open>Evaluating the operands from left to right, up to the first that throws.\<close>

fun sequenceG :: "gres list \<Rightarrow> event list \<times> (jserror + jsval list)" where
  "sequenceG [] = ([], Inr [])"
| "sequenceG (r # rs) =
     (case snd r of
        Inl e \<Rightarrow> (fst r, Inl e)
      | Inr v \<Rightarrow>
          (case snd (sequenceG rs) of
             Inl e \<Rightarrow> (fst r @ fst (sequenceG rs), Inl e)
           | Inr vs \<Rightarrow> (fst r @ fst (sequenceG rs), Inr (v # vs))))"

text \<open>\<open>xs[i]\<close> on an array of values or of results: \<open>undefined\<close> past the end.\<close>

definition nthValue :: "jsval list \<Rightarrow> nat \<Rightarrow> jsval" where
  "nthValue xs i = (if i < length xs then xs ! i else Undefined)"

definition nthResult :: "gres list \<Rightarrow> nat \<Rightarrow> gres" where
  "nthResult rs i = (if i < length rs then rs ! i else ([], Inr Undefined))"

definition ruleIdValue :: "string option \<Rightarrow> jsval" where
  "ruleIdValue ctx = (case ctx of None \<Rightarrow> Null | Some s \<Rightarrow> Str s)"

definition guardError :: "string option \<Rightarrow> jsval \<Rightarrow> jsobj \<Rightarrow> event" where
  "guardError ctx guard b = Event ''engine:guardError'' [ruleIdValue ctx, guard, Obj b]"

text \<open>A property name from a path segment, and the walk of \<open>path\<close> / \<open>pathOr\<close>.\<close>

definition propertyName :: "host \<Rightarrow> jsval \<Rightarrow> string" where
  "propertyName h part = (case part of Str s \<Rightarrow> s | _ \<Rightarrow> htoStr h part)"

definition nullish :: "jsval \<Rightarrow> bool" where
  "nullish v = (v = Null \<or> v = Undefined)"

fun walkPath :: "host \<Rightarrow> jsval \<Rightarrow> jsval list \<Rightarrow> jsval" where
  "walkPath h obj [] = obj"
| "walkPath h obj (part # parts) =
     (if isObjectLike obj then
        walkPath h
          (if nullish (readProp obj (propertyName h part))
           then readProp obj (''?'' @ propertyName h part)
           else readProp obj (propertyName h part))
          parts
      else Undefined)"

text \<open>\<open>target?.length ?? target?.size\<close>.\<close>

definition sizeOf :: "host \<Rightarrow> jsval \<Rightarrow> jsval" where
  "sizeOf h target =
     (let len = (case target of
                   Str s \<Rightarrow> Num (Fin (of_nat (length s)))
                 | Arr xs \<Rightarrow> Num (Fin (of_nat (length xs)))
                 | Obj _ \<Rightarrow> readProp target ''length''
                 | Fn n \<Rightarrow> Num (Fin (of_nat (hfnLength h n)))
                 | _ \<Rightarrow> Undefined)
      in if nullish len then (case target of Obj _ \<Rightarrow> readProp target ''size'' | _ \<Rightarrow> Undefined)
         else len)"

definition isNumber :: "jsval \<Rightarrow> bool" where
  "isNumber v = (case v of Num _ \<Rightarrow> True | _ \<Rightarrow> False)"

definition isBoolean :: "jsval \<Rightarrow> bool" where
  "isBoolean v = (case v of Bool _ \<Rightarrow> True | _ \<Rightarrow> False)"

definition isString :: "jsval \<Rightarrow> bool" where
  "isString v = (case v of Str _ \<Rightarrow> True | _ \<Rightarrow> False)"

text \<open>
  \<open>expectNumericOperands(opName, operands, numExpected)\<close>: the events emitted and the
  error thrown, if any. \<open>numericArgs()\<close> turns the operands that passed into numbers.
\<close>

definition expectNumericOperands ::
  "string option \<Rightarrow> jsval \<Rightarrow> jsobj \<Rightarrow> jsval list \<Rightarrow> nat option \<Rightarrow> event list \<times> jserror option" where
  "expectNumericOperands ctx guard b operands numExpected =
     (if (case numExpected of None \<Rightarrow> False | Some n \<Rightarrow> length operands \<noteq> n)
      then ([guardError ctx guard b], Some (TypeError ''operand count''))
      else if \<exists>operand \<in> set operands. \<not> isNumber operand \<and> \<not> isBoolean operand
      then ([guardError ctx guard b], Some (TypeError ''expects numeric operands''))
      else ([], None))"

definition toNumeric :: "jsval \<Rightarrow> jsnum" where
  "toNumeric arg = (case arg of Bool t \<Rightarrow> (if t then Fin 1 else Fin 0) | Num x \<Rightarrow> x | _ \<Rightarrow> NaN)"

definition numericArgs :: "jsval list \<Rightarrow> jsnum list" where
  "numericArgs resolvedArgs = map toNumeric resolvedArgs"

text \<open>An element of \<open>resolvedArgs.join('')\<close>.\<close>

definition joinStr :: "host \<Rightarrow> jsval \<Rightarrow> string" where
  "joinStr h v = (if nullish v then [] else case v of Str s \<Rightarrow> s | _ \<Rightarrow> htoStr h v)"

text \<open>
  The operator \<open>switch\<close>, after the operands have been resolved. A numeric operator first
  checks its operands; what it then computes is \<open>compute\<close>.
\<close>

definition numericOp ::
  "string option \<Rightarrow> jsval \<Rightarrow> jsobj \<Rightarrow> jsval list \<Rightarrow> nat option \<Rightarrow> (jsnum list \<Rightarrow> gres) \<Rightarrow> gres" where
  "numericOp ctx guard b resolvedArgs numExpected compute =
     (case expectNumericOperands ctx guard b resolvedArgs numExpected of
        (evs, Some e) \<Rightarrow> (evs, Inl e)
      | (evs, None) \<Rightarrow> (evs @ fst (compute (numericArgs resolvedArgs)), snd (compute (numericArgs resolvedArgs))))"

definition applyOperator ::
  "host \<Rightarrow> string option \<Rightarrow> jsval \<Rightarrow> jsobj \<Rightarrow> jsval \<Rightarrow> jsval list \<Rightarrow> gres" where
  "applyOperator h ctx guard b op resolvedArgs =
     (if op = Str ''>'' then
        numericOp ctx guard b resolvedArgs (Some 2) (\<lambda>n. ([], Inr (Bool (numLess (n ! 1) (n ! 0)))))
      else if op = Str ''>='' then
        numericOp ctx guard b resolvedArgs (Some 2) (\<lambda>n. ([], Inr (Bool (numLe (n ! 1) (n ! 0)))))
      else if op = Str ''<'' then
        numericOp ctx guard b resolvedArgs (Some 2) (\<lambda>n. ([], Inr (Bool (numLess (n ! 0) (n ! 1)))))
      else if op = Str ''<='' then
        numericOp ctx guard b resolvedArgs (Some 2) (\<lambda>n. ([], Inr (Bool (numLe (n ! 0) (n ! 1)))))
      else if op = Str ''==='' then
        ([], Inr (Bool (strictEq (hrefEq h) (nthValue resolvedArgs 0) (nthValue resolvedArgs 1))))
      else if op = Str ''!=='' then
        ([], Inr (Bool (\<not> strictEq (hrefEq h) (nthValue resolvedArgs 0) (nthValue resolvedArgs 1))))
      else if op = Str ''+'' then
        (if \<exists>arg \<in> set resolvedArgs. isString arg
         then ([], Inr (Str (concat (map (joinStr h) resolvedArgs))))
         else numericOp ctx guard b resolvedArgs None (\<lambda>n. ([], Inr (Num (foldl (numAdd h) (Fin 0) n)))))
      else if op = Str ''-'' then
        numericOp ctx guard b resolvedArgs None
          (\<lambda>n. ([], Inr (case n of
                            [] \<Rightarrow> Undefined
                          | [x] \<Rightarrow> Num (numNeg x)
                          | x # rest \<Rightarrow> Num (foldl (numSub h) x rest))))
      else if op = Str ''*'' then
        numericOp ctx guard b resolvedArgs None (\<lambda>n. ([], Inr (Num (foldl (numMul h) (Fin 1) n))))
      else if op = Str ''/'' then
        numericOp ctx guard b resolvedArgs (Some 2)
          (\<lambda>n. if isZero (n ! 1)
               then ([guardError ctx guard b], Inl (Error ''Guard Error: Division by zero''))
               else ([], Inr (Num (numDiv h (n ! 0) (n ! 1)))))
      else ([guardError ctx guard b], Inl (Error ''Guard Error: Unknown operator'')))"

text \<open>
  The body of \<open>executeGuard\<close> for a non-empty array \<open>[op, ...args]\<close>. \<open>rs\<close> holds, for
  each operand, what resolving it gives; an operator uses the results of the operands it
  resolves, in the order in which it resolves them.
\<close>

definition guardBody ::
  "host \<Rightarrow> string option \<Rightarrow> jsval \<Rightarrow> jsobj \<Rightarrow> jsval \<Rightarrow> jsval list \<Rightarrow> gres list \<Rightarrow> gres" where
  "guardBody h ctx guard b op args rs =
     (if op = Str ''path'' \<or> op = Str ''pathOr'' then
        (let defaultValue = (if op = Str ''pathOr'' then nthValue args 0 else Undefined);
             target = (if op = Str ''pathOr'' then nthResult rs 1 else nthResult rs 0);
             pathSegments = (if op = Str ''pathOr'' then drop 2 args else drop 1 args)
         in bindG target (\<lambda>obj0.
              let obj = walkPath h obj0 pathSegments
              in ([], Inr (if obj = Undefined \<and> op = Str ''pathOr'' then defaultValue else obj))))
      else if op = Str ''isNil'' then
        (if length args \<noteq> 1 then ([], Inl (TypeError ''isNil expects 1 argument''))
         else bindG (nthResult rs 0) (\<lambda>val. ([], Inr (Bool (nullish val)))))
      else if op = Str ''isDefined'' then
        (if length args \<noteq> 1 then ([], Inl (TypeError ''isDefined expects 1 argument''))
         else bindG (nthResult rs 0) (\<lambda>val. ([], Inr (Bool (\<not> nullish val)))))
      else if op = Str ''hasSize'' then
        (if length args \<noteq> 2 then ([], Inl (TypeError ''hasSize expects 2 arguments''))
         else bindG (nthResult rs 0) (\<lambda>target.
              bindG (nthResult rs 1) (\<lambda>sizeMatcher.
                let size = sizeOf h target in
                if \<not> isNumber size then ([], Inr (Bool False))
                else (case sizeMatcher of
                        Fn n \<Rightarrow> (case hcall h n size of
                                   None \<Rightarrow> ([], Inl Thrown)
                                 | Some v \<Rightarrow> ([], Inr v))
                      | _ \<Rightarrow> ([], Inr (Bool (strictEq (hrefEq h) size sizeMatcher)))))))
      else
        (case sequenceG rs of
           (evs, Inl e) \<Rightarrow> (evs, Inl e)
         | (evs, Inr resolvedArgs) \<Rightarrow>
             (evs @ fst (applyOperator h ctx guard b op resolvedArgs),
              snd (applyOperator h ctx guard b op resolvedArgs))))"

text \<open>
  \<open>#resolveGuardValue\<close> on a value that is not an array: a variable reference reads the
  bindings (an unbound one gives \<open>undefined\<close>), anything else is a literal.
\<close>

definition resolveLeaf :: "jsobj \<Rightarrow> jsval \<Rightarrow> gres" where
  "resolveLeaf b v =
     (case v of
        Str s \<Rightarrow> if startsWith s ''?'' then ([], Inr (getProp b s)) else ([], Inr v)
      | _ \<Rightarrow> ([], Inr v))"

text \<open>
  \<open>#executeGuard(guard, bindings, ruleIdForContext)\<close>. A nested array among the operands
  is evaluated by the same function with \<open>null\<close> for the rule identity.
\<close>

fun executeGuard :: "host \<Rightarrow> jsval \<Rightarrow> jsobj \<Rightarrow> string option \<Rightarrow> gres" where
  "executeGuard h guard b ctx =
     (case guard of
        Arr (op # args) \<Rightarrow>
          guardBody h ctx guard b op args
            (map (\<lambda>arg. case arg of
                          Arr ys \<Rightarrow> executeGuard h arg b None
                        | _ \<Rightarrow> resolveLeaf b arg) args)
      | _ \<Rightarrow> ([guardError ctx guard b], Inl (TypeError ''Guard expression must be a non-empty array'')))"

declare executeGuard.simps [simp del]


section \<open>The condition join (LeapEngine checkRule)\<close>

text \<open>
  The generator \<open>#checkRule\<close> is modelled by what a consumer that drains it sees: the
  activations it yields, in order, the exception with which it ends, if any, and the events
  emitted on the way.
\<close>

record jres =
  yielded :: "activation list"
  raised :: "jserror option"
  jevents :: "event list"

definition noResult :: jres where
  "noResult = \<lparr>yielded = [], raised = None, jevents = []\<rparr>"

text \<open>Running \<open>r2\<close> after \<open>r1\<close>, unless \<open>r1\<close> ended with an exception.\<close>

definition thenResult :: "jres \<Rightarrow> jres \<Rightarrow> jres" where
  "thenResult r1 r2 =
     (case raised r1 of
        Some e \<Rightarrow> r1
      | None \<Rightarrow> \<lparr>yielded = yielded r1 @ yielded r2, raised = raised r2,
                 jevents = jevents r1 @ jevents r2\<rparr>)"

text \<open>\<open>Object.keys(obj)[0]\<close> and \<open>obj[Object.keys(obj)[0]]\<close>.\<close>

definition firstKey :: "jsobj \<Rightarrow> jsval" where
  "firstKey ob = (case ob of [] \<Rightarrow> Undefined | (k, v) # _ \<Rightarrow> Str k)"

definition firstValue :: "jsobj \<Rightarrow> jsval" where
  "firstValue ob = (case ob of [] \<Rightarrow> Undefined | (k, v) # _ \<Rightarrow> getProp ob k)"

text \<open>
  The store hands out fact objects; the join reads \<open>factEntry.fact\<close> of each and matches
  against that when it is an object, against the fact itself otherwise.
\<close>

definition plainFact :: "jsobj \<Rightarrow> jsval" where
  "plainFact factEntry =
     (case getProp factEntry ''fact'' of
        Obj ob \<Rightarrow> Obj ob
      | Arr xs \<Rightarrow> Arr xs
      | _ \<Rightarrow> Obj factEntry)"

text \<open>
  The identity a stored fact carries in \<open>_id\<close>, as a number of the store. The consumed set
  holds the identities that are such numbers; the store assigns no others.
\<close>

definition idOfValue :: "jsval \<Rightarrow> nat option" where
  "idOfValue v =
     (case v of
        Num (Fin r) \<Rightarrow> if 0 \<le> r \<and> of_int \<lfloor>r\<rfloor> = r then Some (nat \<lfloor>r\<rfloor>) else None
      | _ \<Rightarrow> None)"

definition consumedId :: "jsobj \<Rightarrow> jsval \<Rightarrow> jsval" where
  "consumedId factEntry pf =
     (if getProp factEntry ''_id'' \<noteq> Undefined then getProp factEntry ''_id''
      else (case pf of Obj ob \<Rightarrow> getProp ob ''_id'' | _ \<Rightarrow> Undefined))"

definition addConsumed :: "nat set \<Rightarrow> jsval \<Rightarrow> nat set" where
  "addConsumed consumed cid =
     (case idOfValue cid of None \<Rightarrow> consumed | Some n \<Rightarrow> insert n consumed)"

text \<open>
  The scan of a Lacks condition: whether some fact matches; \<open>None\<close> when a call of the
  matcher does not return.
\<close>

fun anyMatch ::
  "(jsval \<Rightarrow> jsval \<Rightarrow> jsobj \<Rightarrow> mres option) \<Rightarrow> jsval \<Rightarrow> jsobj \<Rightarrow> jsobj list \<Rightarrow> bool option" where
  "anyMatch m pattern b [] = Some False"
| "anyMatch m pattern b (factEntry # rest) =
     (case m pattern (plainFact factEntry) b of
        None \<Rightarrow> None
      | Some r \<Rightarrow> if isMatch r then Some True else anyMatch m pattern b rest)"

text \<open>The scan of an Accumulator condition: the facts that match.\<close>

fun sourceFacts ::
  "(jsval \<Rightarrow> jsval \<Rightarrow> jsobj \<Rightarrow> mres option) \<Rightarrow> jsval \<Rightarrow> jsobj \<Rightarrow> jsobj list \<Rightarrow> jsval list option" where
  "sourceFacts m pattern b [] = Some []"
| "sourceFacts m pattern b (factEntry # rest) =
     (case m pattern (plainFact factEntry) b of
        None \<Rightarrow> None
      | Some r \<Rightarrow>
          (case sourceFacts m pattern b rest of
             None \<Rightarrow> None
           | Some fs \<Rightarrow> Some (if isMatch r then plainFact factEntry # fs else fs)))"

text \<open>
  \<open>guards.every(guard => executeGuard(...))\<close>: the events, and whether all guards were
  truthy, or the error of the first guard that threw.
\<close>

fun guardsEvery :: "host \<Rightarrow> jsval list \<Rightarrow> jsobj \<Rightarrow> string option \<Rightarrow> event list \<times> (jserror + bool)" where
  "guardsEvery h [] b ctx = ([], Inr True)"
| "guardsEvery h (guard # guards) b ctx =
     (case executeGuard h guard b ctx of
        (evs, Inl e) \<Rightarrow> (evs, Inl e)
      | (evs, Inr v) \<Rightarrow>
          if truthy v
          then (evs @ fst (guardsEvery h guards b ctx), snd (guardsEvery h guards b ctx))
          else (evs, Inr False))"

text \<open>Binding the alias of a pattern condition, with and without the sigil.\<close>

definition bindAlias :: "jsval \<Rightarrow> jsval \<Rightarrow> jsobj \<Rightarrow> jsobj" where
  "bindAlias factAlias pf currentBindings =
     (case factAlias of
        Str a \<Rightarrow>
          if a = [] then currentBindings
          else
            (let b1 = (if \<not> truthy (getProp currentBindings a) then setProp currentBindings a pf
                       else currentBindings);
                 varAlias = (if startsWith a ''?'' then a else ''?'' @ a)
             in if \<not> truthy (getProp b1 varAlias) then setProp b1 varAlias pf else b1)
      | _ \<Rightarrow> currentBindings)"

text \<open>
  One candidate of a pattern condition after it matched: the \<open>try\<close> block. \<open>k\<close> is the join
  over the remaining conditions. An exception inside the block, from a guard or from the
  join over the remaining conditions, is caught and dropped; what was yielded and
  emitted before it stays.
\<close>

definition tryCandidate ::
  "host \<Rightarrow> string \<Rightarrow> jsval list \<Rightarrow> jsobj \<Rightarrow> jsval \<Rightarrow> jsobj \<Rightarrow> nat set \<Rightarrow>
   (jsobj \<Rightarrow> nat set \<Rightarrow> jres) \<Rightarrow> jres" where
  "tryCandidate h ruleIdent guards factEntry pf currentBindings consumed k =
     (case guardsEvery h guards currentBindings (Some ruleIdent) of
        (evs, Inl e) \<Rightarrow> \<lparr>yielded = [], raised = None, jevents = evs\<rparr>
      | (evs, Inr allGuardsPassed) \<Rightarrow>
          if allGuardsPassed then
            (let newConsumed = addConsumed consumed (consumedId factEntry pf);
                 sub = k currentBindings newConsumed
             in \<lparr>yielded = yielded sub, raised = None, jevents = evs @ jevents sub\<rparr>)
          else \<lparr>yielded = [], raised = None, jevents = evs\<rparr>)"

text \<open>
  The loop of a pattern condition over the candidate facts. The call of the matcher is
  outside the \<open>try\<close> block: when it does not return, the loop ends with the exception.
\<close>

fun patternLoop ::
  "host \<Rightarrow> nat \<Rightarrow> string \<Rightarrow> jsval \<Rightarrow> jsval \<Rightarrow> jsval list \<Rightarrow> jsobj \<Rightarrow> nat set \<Rightarrow>
   (jsobj \<Rightarrow> nat set \<Rightarrow> jres) \<Rightarrow> jsobj list \<Rightarrow> jres" where
  "patternLoop h d ruleIdent factAlias pattern guards b consumed k [] = noResult"
| "patternLoop h d ruleIdent factAlias pattern guards b consumed k (factEntry # rest) =
     (case match (hcall h) d pattern (plainFact factEntry) b of
        None \<Rightarrow> \<lparr>yielded = [], raised = Some (RangeError ''Maximum call stack size exceeded''),
                 jevents = []\<rparr>
      | Some matchResult \<Rightarrow>
          thenResult
            (if isMatch matchResult
             then tryCandidate h ruleIdent guards factEntry (plainFact factEntry)
                    (bindAlias factAlias (plainFact factEntry) (bindings matchResult)) consumed k
             else noResult)
            (patternLoop h d ruleIdent factAlias pattern guards b consumed k rest))"

text \<open>
  \<open>pattern.type || (factAlias.startsWith('?') ? null : factAlias)\<close>, for a pattern that is
  neither \<open>null\<close> nor \<open>undefined\<close>.
\<close>

definition typeToQuery :: "jsval \<Rightarrow> jsval \<Rightarrow> jsval" where
  "typeToQuery factAlias pattern =
     (let ty = (case pattern of Obj ob \<Rightarrow> getProp ob ''type'' | _ \<Rightarrow> Undefined)
      in if truthy ty then ty
         else (case factAlias of
                 Str a \<Rightarrow> if startsWith a ''?'' then Null else Str a
               | _ \<Rightarrow> Null))"

text \<open>
  \<open>#checkRule(ruleOrQuery, whenConditions, initialBindings, consumed)\<close>. \<open>d\<close> bounds the
  depth of the matcher's recursion; \<open>accs name field facts\<close> is the result of the named
  accumulator, \<open>None\<close> when the call throws (there is no accumulator of that name, or it
  throws itself).
\<close>

primrec checkRule ::
  "host \<Rightarrow> nat \<Rightarrow> (string \<Rightarrow> jsval \<Rightarrow> jsval list \<Rightarrow> jsval option) \<Rightarrow> factStorage \<Rightarrow> rule \<Rightarrow>
   condition list \<Rightarrow> jsobj \<Rightarrow> nat set \<Rightarrow> jres" where
  "checkRule h d accs st ruleOrQuery [] =
     (\<lambda>initialBindings consumed.
        \<lparr>yielded = [\<lparr>rule = ruleOrQuery, abindings = initialBindings, consumedFactIds = consumed\<rparr>],
         raised = None, jevents = []\<rparr>)"
| "checkRule h d accs st ruleOrQuery (condition # remainingConditions) =
     (\<lambda>initialBindings consumed.
        case condition of
          Lacks lacksPatternObject \<Rightarrow>
            (case anyMatch (match (hcall h) d) (firstValue lacksPatternObject) initialBindings
                    (getFactsByType st (firstKey lacksPatternObject)) of
               None \<Rightarrow> \<lparr>yielded = [], raised = Some (RangeError ''Maximum call stack size exceeded''),
                        jevents = []\<rparr>
             | Some foundMatch \<Rightarrow>
                 if \<not> foundMatch
                 then checkRule h d accs st ruleOrQuery remainingConditions initialBindings consumed
                 else noResult)
        | Accumulator fromPatternObject accumulate onField intoVariable \<Rightarrow>
            (case sourceFacts (match (hcall h) d) (firstValue fromPatternObject) initialBindings
                    (getFactsByType st (firstKey fromPatternObject)) of
               None \<Rightarrow> \<lparr>yielded = [], raised = Some (RangeError ''Maximum call stack size exceeded''),
                        jevents = []\<rparr>
             | Some matched \<Rightarrow>
                 (case accs accumulate onField matched of
                    None \<Rightarrow> \<lparr>yielded = [], raised = Some Thrown, jevents = []\<rparr>
                  | Some result \<Rightarrow>
                      checkRule h d accs st ruleOrQuery remainingConditions
                        (setProp initialBindings intoVariable result) consumed))
        | Pattern patternObject guards \<Rightarrow>
            (let factAlias = firstKey patternObject;
                 pattern = firstValue patternObject
             in if nullish pattern
                then \<lparr>yielded = [], raised = Some (TypeError ''Cannot read properties of undefined''),
                      jevents = []\<rparr>
                else patternLoop h d (rid ruleOrQuery) factAlias pattern guards initialBindings consumed
                       (checkRule h d accs st ruleOrQuery remainingConditions)
                       (getFactsByType st (typeToQuery factAlias pattern))))"


text \<open>Whether a condition is a pattern condition.\<close>

definition isPattern :: "condition \<Rightarrow> bool" where
  "isPattern c = (case c of Pattern _ _ \<Rightarrow> True | _ \<Rightarrow> False)"

section \<open>Truth maintenance and the run loop (LeapEngine)\<close>


































section \<open>Values for the examples\<close>

text \<open>
  A host in which every function value throws when called and every exact result is a
  number of the language (as for the small whole numbers and halves of the examples), a
  store holding the single
  fact \<open>{type: 'flag', _id: 1}\<close>, an accumulator table that knows \<open>count\<close>, and a rule
  without conditions.
\<close>

definition exampleHost :: host where
  "exampleHost = \<lparr>hcall = (\<lambda>n v. None), htoStr = (\<lambda>v. []), hrefEq = (\<lambda>a b. False),
     hfnLength = (\<lambda>n. 0), hround = Fin\<rparr>"

definition flagStore :: factStorage where
  "flagStore = \<lparr>factIdCounter = 1,
     facts = [(1, \<lparr>efact = [(''type'', Str ''flag''), (''_id'', Num (Fin 1))], metadata = []\<rparr>)],
     alphaNetwork = [(''flag'', [(1, [(''type'', Str ''flag''), (''_id'', Num (Fin 1))])])]\<rparr>"

definition countOnly :: "string \<Rightarrow> jsval \<Rightarrow> jsval list \<Rightarrow> jsval option" where
  "countOnly name field fs =
     (if name = ''count'' then Some (Num (Fin (of_nat (length fs)))) else None)"

definition plainRule :: "string \<Rightarrow> rule" where
  "plainRule i = \<lparr>rid = i, rtype = Undefined, salience = Undefined, rwhen = [], pre = [],
     action = (\<lambda>b. [])\<rparr>"













section \<open>Properties of the pattern matcher\<close>

lemma sameValue_literal: "isLiteral p \<Longrightarrow> sameValue p f = (p = f)"
  by (cases p; cases f) (auto simp: isLiteral_def sameValue_def strict_eq_num_def)

lemma match_literal:
  "isLiteral p \<Longrightarrow> match call (Suc d) p f b = Some \<lparr>isMatch = (p = f), bindings = b\<rparr>"
  by (cases p) (auto simp: isLiteral_def)

text \<open>
  C9. A literal pattern (not the wildcard, a predicate, a variable, an array or an object)
  matches exactly the values that are the same value in the sense of \<open>Object.is\<close>, and
  leaves the bindings alone: \<open>NaN\<close> matches \<open>NaN\<close>, the two zeros do not match each other,
  and values of different types (\<open>0\<close> and \<open>false\<close>, \<open>'1'\<close> and \<open>1\<close>) never match.
\<close>

theorem literal_same_value:
  "(isLiteral p \<longrightarrow> match call (Suc d) p f b = Some \<lparr>isMatch = sameValue p f, bindings = b\<rparr>)
   \<and> match call (Suc d) (Num NaN) (Num NaN) b = Some \<lparr>isMatch = True, bindings = b\<rparr>
   \<and> match call (Suc d) (Num (Fin 0)) (Num NegZero) b = Some \<lparr>isMatch = False, bindings = b\<rparr>
   \<and> match call (Suc d) (Num NegZero) (Num (Fin 0)) b = Some \<lparr>isMatch = False, bindings = b\<rparr>
   \<and> match call (Suc d) (Num (Fin 0)) (Bool False) b = Some \<lparr>isMatch = False, bindings = b\<rparr>
   \<and> match call (Suc d) (Str ''1'') (Num (Fin 1)) b = Some \<lparr>isMatch = False, bindings = b\<rparr>"
  using match_literal[of p call d f b] sameValue_literal[of p f]
  by (simp add: startsWith_def)

theorem literal_same_value_witness:
  "isLiteral (Num (Fin 3)) \<and>
   match (\<lambda>n v. None) (Suc 0) (Num (Fin 3)) (Num (Fin 3)) [] = Some \<lparr>isMatch = True, bindings = []\<rparr>"
  using literal_same_value[of "Num (Fin 3)" "\<lambda>n v. None" 0 "Num (Fin 3)" "[]"]
  by (simp add: isLiteral_def sameValue_def strict_eq_num_def)

lemma getProp_setProp_same: "getProp (setProp b k v) k = v"
  by (simp add: getProp_def setProp_def update_conv')

lemma getProp_setProp_other: "k' \<noteq> k \<Longrightarrow> getProp (setProp b k v) k' = getProp b k'"
  by (simp add: getProp_def setProp_def update_conv')

lemma match_var_unbound:
  "startsWith v ''?'' \<Longrightarrow> getProp b v = Undefined \<Longrightarrow>
   match call (Suc d) (Str v) f b = Some \<lparr>isMatch = True, bindings = setProp b v f\<rparr>"
  by simp

lemma match_var_bound:
  "startsWith v ''?'' \<Longrightarrow> getProp b v \<noteq> Undefined \<Longrightarrow>
   match call (Suc d) (Str v) f b = match call d (getProp b v) f b"
  by simp

text \<open>
  C3. A variable reference (a string starting with \<open>?\<close>) that has no binding is bound to
  the value and the match succeeds. When it has a binding (the source's test is
  \<open>boundValue !== undefined\<close>), the stored value is itself matched, as a pattern, against
  the new value: for a stored literal this is the comparison of the two values and the
  bindings stay as they were, and a stored structure with variables inside still binds
  them (last conjunct), which an equality test would not do. So
  \<open>match('?x', 5, {})\<close> binds \<open>?x\<close> to 5 and \<open>match('?x', 6, {'?x': 5})\<close> fails with \<open>?x\<close>
  still 5.
\<close>

theorem variable_binding_consistency:
  "(startsWith v ''?'' \<and> map_of b v = None \<longrightarrow>
      match call (Suc d) (Str v) f b = Some \<lparr>isMatch = True, bindings = setProp b v f\<rparr>
      \<and> getProp (setProp b v f) v = f)
   \<and> (startsWith v ''?'' \<and> map_of b v = Some bv \<and> bv \<noteq> Undefined \<longrightarrow>
      match call (Suc d) (Str v) f b = match call d bv f b)
   \<and> (startsWith v ''?'' \<and> map_of b v = Some bv \<and> bv \<noteq> Undefined \<and> isLiteral bv \<longrightarrow>
      match call (Suc (Suc d)) (Str v) f b = Some \<lparr>isMatch = (bv = f), bindings = b\<rparr>)
   \<and> match call (Suc d) (Str ''?x'') (Num (Fin 5)) [] =
        Some \<lparr>isMatch = True, bindings = [(''?x'', Num (Fin 5))]\<rparr>
   \<and> match call (Suc (Suc d)) (Str ''?x'') (Num (Fin 6)) [(''?x'', Num (Fin 5))] =
        Some \<lparr>isMatch = False, bindings = [(''?x'', Num (Fin 5))]\<rparr>
   \<and> match call (Suc (Suc (Suc (Suc d)))) (Str ''?x'') (Arr [Num (Fin 6)]) [(''?x'', Arr [Str ''?y''])] =
        Some \<lparr>isMatch = True, bindings = [(''?x'', Arr [Str ''?y'']), (''?y'', Num (Fin 6))]\<rparr>"
proof -
  have a: "startsWith v ''?'' \<and> map_of b v = None \<longrightarrow>
      match call (Suc d) (Str v) f b = Some \<lparr>isMatch = True, bindings = setProp b v f\<rparr>
      \<and> getProp (setProp b v f) v = f"
    using match_var_unbound[of v b call d f] getProp_setProp_same[of b v f] by (simp add: getProp_def)
  have b: "startsWith v ''?'' \<and> map_of b v = Some bv \<and> bv \<noteq> Undefined \<longrightarrow>
      match call (Suc d) (Str v) f b = match call d bv f b"
    using match_var_bound[of v b call d f] by (simp add: getProp_def)
  have c: "startsWith v ''?'' \<and> map_of b v = Some bv \<and> bv \<noteq> Undefined \<and> isLiteral bv \<longrightarrow>
      match call (Suc (Suc d)) (Str v) f b = Some \<lparr>isMatch = (bv = f), bindings = b\<rparr>"
    using match_var_bound[of v b call "Suc d" f] match_literal[of bv call d f b]
    by (simp add: getProp_def)
  have d: "match call (Suc d) (Str ''?x'') (Num (Fin 5)) [] =
        Some \<lparr>isMatch = True, bindings = [(''?x'', Num (Fin 5))]\<rparr>"
    by (simp add: startsWith_def getProp_def setProp_def)
  have e: "match call (Suc (Suc d)) (Str ''?x'') (Num (Fin 6)) [(''?x'', Num (Fin 5))] =
        Some \<lparr>isMatch = False, bindings = [(''?x'', Num (Fin 5))]\<rparr>"
    by (simp add: startsWith_def getProp_def setProp_def)
  have f: "match call (Suc (Suc (Suc (Suc d)))) (Str ''?x'') (Arr [Num (Fin 6)]) [(''?x'', Arr [Str ''?y''])] =
        Some \<lparr>isMatch = True, bindings = [(''?x'', Arr [Str ''?y'']), (''?y'', Num (Fin 6))]\<rparr>"
    by (simp add: startsWith_def getProp_def setProp_def isRest_def)
  from a b c d e f show ?thesis by blast
qed

theorem variable_binding_consistency_witness:
  "startsWith ''?x'' ''?'' \<and> map_of [(''?x'', Num (Fin 5))] ''?x'' = Some (Num (Fin 5))
   \<and> Num (Fin 5) \<noteq> Undefined \<and> isLiteral (Num (Fin 5))
   \<and> map_of ([] :: jsobj) ''?x'' = None
   \<and> match (\<lambda>n v. None) (Suc (Suc 0)) (Str ''?x'') (Num (Fin 6)) [(''?x'', Num (Fin 5))]
       = Some \<lparr>isMatch = False, bindings = [(''?x'', Num (Fin 5))]\<rparr>
   \<and> match (\<lambda>n v. None) (Suc 0) (Str ''?x'') (Num (Fin 5)) []
       = Some \<lparr>isMatch = True, bindings = setProp [] ''?x'' (Num (Fin 5))\<rparr>"
  using variable_binding_consistency[of "''?x''" "[(''?x'', Num (Fin 5))]" "\<lambda>n v. None" 0 "Num (Fin 6)" "Num (Fin 5)"]
        variable_binding_consistency[of "''?x''" "[]" "\<lambda>n v. None" 0 "Num (Fin 5)" "Num (Fin 5)"]
  by (simp add: startsWith_def isLiteral_def getProp_def setProp_def)

text \<open>
  C10. A binding whose value is \<open>undefined\<close> counts as no binding. Matching \<open>?x\<close> against
  \<open>undefined\<close> succeeds and stores the key with value \<open>undefined\<close>; any later occurrence
  of \<open>?x\<close> is then rebound to whatever value it meets, without a consistency check. So
  \<open>['?x', '?x']\<close> matches \<open>[undefined, 7]\<close>, although it does not match \<open>[5, 7]\<close>.
\<close>

theorem undefined_binding_is_unbound:
  "(startsWith v ''?'' \<and> getProp b v = Undefined \<longrightarrow>
      match call (Suc d) (Str v) Undefined b = Some \<lparr>isMatch = True, bindings = setProp b v Undefined\<rparr>
      \<and> map_of (setProp b v Undefined) v = Some Undefined)
   \<and> (startsWith v ''?'' \<and> map_of b v = Some Undefined \<longrightarrow>
      match call (Suc d) (Str v) f b = Some \<lparr>isMatch = True, bindings = setProp b v f\<rparr>
      \<and> getProp (setProp b v f) v = f)
   \<and> match call (Suc d) (Str ''?x'') Undefined [] =
        Some \<lparr>isMatch = True, bindings = [(''?x'', Undefined)]\<rparr>
   \<and> match call (Suc d) (Str ''?x'') (Num (Fin 7)) [(''?x'', Undefined)] =
        Some \<lparr>isMatch = True, bindings = [(''?x'', Num (Fin 7))]\<rparr>
   \<and> match call (Suc (Suc d)) (Arr [Str ''?x'', Str ''?x'']) (Arr [Undefined, Num (Fin 7)]) [] =
        Some \<lparr>isMatch = True, bindings = [(''?x'', Num (Fin 7))]\<rparr>
   \<and> match call (Suc (Suc (Suc d))) (Arr [Str ''?x'', Str ''?x'']) (Arr [Num (Fin 5), Num (Fin 7)]) [] =
        Some \<lparr>isMatch = False, bindings = [(''?x'', Num (Fin 5))]\<rparr>"
proof -
  have a: "startsWith v ''?'' \<and> getProp b v = Undefined \<longrightarrow>
      match call (Suc d) (Str v) Undefined b = Some \<lparr>isMatch = True, bindings = setProp b v Undefined\<rparr>
      \<and> map_of (setProp b v Undefined) v = Some Undefined"
    using match_var_unbound[of v b call d Undefined] by (simp add: setProp_def update_conv')
  have b: "startsWith v ''?'' \<and> map_of b v = Some Undefined \<longrightarrow>
      match call (Suc d) (Str v) f b = Some \<lparr>isMatch = True, bindings = setProp b v f\<rparr>
      \<and> getProp (setProp b v f) v = f"
    using match_var_unbound[of v b call d f] getProp_setProp_same[of b v f] by (simp add: getProp_def)
  have c: "match call (Suc d) (Str ''?x'') Undefined [] =
        Some \<lparr>isMatch = True, bindings = [(''?x'', Undefined)]\<rparr>"
    by (simp add: startsWith_def getProp_def setProp_def)
  have d: "match call (Suc d) (Str ''?x'') (Num (Fin 7)) [(''?x'', Undefined)] =
        Some \<lparr>isMatch = True, bindings = [(''?x'', Num (Fin 7))]\<rparr>"
    by (simp add: startsWith_def getProp_def setProp_def)
  have e: "match call (Suc (Suc d)) (Arr [Str ''?x'', Str ''?x'']) (Arr [Undefined, Num (Fin 7)]) [] =
        Some \<lparr>isMatch = True, bindings = [(''?x'', Num (Fin 7))]\<rparr>"
    by (simp add: startsWith_def getProp_def setProp_def isRest_def)
  have f: "match call (Suc (Suc (Suc d))) (Arr [Str ''?x'', Str ''?x'']) (Arr [Num (Fin 5), Num (Fin 7)]) [] =
        Some \<lparr>isMatch = False, bindings = [(''?x'', Num (Fin 5))]\<rparr>"
    by (simp add: startsWith_def getProp_def setProp_def isRest_def)
  from a b c d e f show ?thesis by blast
qed

theorem undefined_binding_is_unbound_witness:
  "startsWith ''?x'' ''?'' \<and> map_of [(''?x'', Undefined)] ''?x'' = Some Undefined
   \<and> getProp [] ''?x'' = Undefined
   \<and> match (\<lambda>n v. None) (Suc 0) (Str ''?x'') (Num (Fin 7)) [(''?x'', Undefined)]
       = Some \<lparr>isMatch = True, bindings = setProp [(''?x'', Undefined)] ''?x'' (Num (Fin 7))\<rparr>
   \<and> match (\<lambda>n v. None) (Suc 0) (Str ''?x'') Undefined []
       = Some \<lparr>isMatch = True, bindings = setProp [] ''?x'' Undefined\<rparr>"
  using undefined_binding_is_unbound[of "''?x''" "[(''?x'', Undefined)]" "\<lambda>n v. None" 0 "Num (Fin 7)"]
        undefined_binding_is_unbound[of "''?x''" "[]" "\<lambda>n v. None" 0 "Num (Fin 7)"]
  by (simp add: startsWith_def getProp_def setProp_def)

lemma findIndex_None_iff: "findIndex P xs = None \<longleftrightarrow> filter P xs = []"
  by (induction xs) auto

lemma findIndex_Some:
  "findIndex P xs = Some k \<Longrightarrow> k < length xs \<and> P (xs ! k) \<and> (\<forall>i<k. \<not> P (xs ! i))"
proof (induction xs arbitrary: k)
  case Nil
  then show ?case by simp
next
  case (Cons x xs)
  show ?case
  proof (cases "P x")
    case True
    with Cons.prems show ?thesis by simp
  next
    case False
    with Cons.prems obtain j where j: "findIndex P xs = Some j" "k = Suc j" by auto
    from Cons.IH[OF j(1)] False j(2) show ?thesis
      by (auto simp: nth_Cons split: nat.splits)
  qed
qed

lemma match_many_rest:
  "1 < length (filter isRest ps) \<Longrightarrow>
   match call (Suc d) (Arr ps) f b = Some \<lparr>isMatch = False, bindings = b\<rparr>"
proof -
  assume a: "1 < length (filter isRest ps)"
  then have "findIndex isRest ps \<noteq> None" by (auto simp: findIndex_None_iff)
  then obtain k where "findIndex isRest ps = Some k" by auto
  with a show ?thesis by (cases f) auto
qed

lemma match_no_rest:
  "filter isRest ps = [] \<Longrightarrow>
   match call (Suc d) (Arr ps) (Arr fs) b =
     (if length ps \<noteq> length fs then Some \<lparr>isMatch = False, bindings = b\<rparr>
      else matchElems (match call d) ps fs b)"
  using findIndex_None_iff[of isRest ps] by simp

lemma match_one_rest:
  assumes "length (filter isRest ps) = 1" and "findIndex isRest ps = Some k"
  shows "match call (Suc d) (Arr ps) (Arr fs) b =
     (if length fs < length ps - 1 then Some \<lparr>isMatch = False, bindings = b\<rparr>
      else case matchElems (match call d) (take k ps) fs b of
             None \<Rightarrow> None
           | Some rh \<Rightarrow>
               if \<not> isMatch rh then Some rh
               else (case matchElems (match call d) (drop (Suc k) ps)
                            (drop (length fs - (length ps - Suc k)) fs) (bindings rh) of
                       None \<Rightarrow> None
                     | Some rt \<Rightarrow>
                         if \<not> isMatch rt then Some rt
                         else Some \<lparr>isMatch = True,
                                bindings = setProp (bindings rt)
                                  (drop 3 (case ps ! k of Str s \<Rightarrow> s | _ \<Rightarrow> []))
                                  (Arr (take (length fs - (length ps - 1)) (drop k fs)))\<rparr>))"
proof -
  from findIndex_Some[OF assms(2)] have k: "k < length ps" by simp
  then have m: "min (length ps) k = k" by simp
  have e: "length fs - (length ps - Suc k) - k = length fs - (length ps - 1)"
    using k by simp
  have l: "k + (length ps - Suc k) = length ps - 1" using k by simp
  show ?thesis using assms k by (simp add: Let_def m e l cong: option.case_cong if_cong)
qed

lemma findIndex_takeWhile:
  "findIndex P xs = (if \<exists>x\<in>set xs. P x then Some (length (takeWhile (\<lambda>x. \<not> P x) xs)) else None)"
  by (induction xs) auto

lemma matchElems_prefix:
  "j \<le> length ps \<Longrightarrow> length ps \<le> length fs \<Longrightarrow>
   \<forall>i<j. m (ps ! i) (fs ! i) (bs i) = Some \<lparr>isMatch = True, bindings = bs (Suc i)\<rparr> \<Longrightarrow>
   matchElems m ps fs (bs 0) = matchElems m (drop j ps) (drop j fs) (bs j)"
proof (induction j arbitrary: ps fs bs)
  case 0
  then show ?case by simp
next
  case (Suc j)
  from Suc.prems(1) obtain p ps' where ps: "ps = p # ps'" by (cases ps) auto
  from Suc.prems(2) ps obtain f fs' where fs: "fs = f # fs'" by (cases fs) auto
  from Suc.prems(3) have "m (ps ! 0) (fs ! 0) (bs 0) = Some \<lparr>isMatch = True, bindings = bs (Suc 0)\<rparr>"
    by blast
  then have first: "m p f (bs 0) = Some \<lparr>isMatch = True, bindings = bs (Suc 0)\<rparr>"
    by (simp add: ps fs)
  have chain: "\<forall>i<j. m (ps' ! i) (fs' ! i) ((bs \<circ> Suc) i)
                 = Some \<lparr>isMatch = True, bindings = (bs \<circ> Suc) (Suc i)\<rparr>"
  proof (intro allI impI)
    fix i assume "i < j"
    then have "Suc i < Suc j" by simp
    with Suc.prems(3) have "m (ps ! Suc i) (fs ! Suc i) (bs (Suc i))
        = Some \<lparr>isMatch = True, bindings = bs (Suc (Suc i))\<rparr>" by blast
    then show "m (ps' ! i) (fs' ! i) ((bs \<circ> Suc) i)
                 = Some \<lparr>isMatch = True, bindings = (bs \<circ> Suc) (Suc i)\<rparr>"
      by (simp add: ps fs)
  qed
  have "matchElems m ps' fs' ((bs \<circ> Suc) 0) = matchElems m (drop j ps') (drop j fs') ((bs \<circ> Suc) j)"
    using Suc.prems(1,2) ps fs chain by (intro Suc.IH) auto
  with first show ?case by (simp add: ps fs)
qed

lemma matchElems_chain:
  assumes len: "length ps \<le> length fs"
  shows "matchElems m ps fs b = Some \<lparr>isMatch = True, bindings = b'\<rparr> \<longleftrightarrow>
     (\<exists>bs. bs 0 = b \<and> bs (length ps) = b'
        \<and> (\<forall>i<length ps. m (ps ! i) (fs ! i) (bs i) = Some \<lparr>isMatch = True, bindings = bs (Suc i)\<rparr>))"
proof
  assume "\<exists>bs. bs 0 = b \<and> bs (length ps) = b'
        \<and> (\<forall>i<length ps. m (ps ! i) (fs ! i) (bs i) = Some \<lparr>isMatch = True, bindings = bs (Suc i)\<rparr>)"
  then obtain bs where bs: "bs 0 = b" "bs (length ps) = b'"
    "\<forall>i<length ps. m (ps ! i) (fs ! i) (bs i) = Some \<lparr>isMatch = True, bindings = bs (Suc i)\<rparr>"
    by blast
  from matchElems_prefix[OF le_refl len bs(3)] bs(1,2)
  show "matchElems m ps fs b = Some \<lparr>isMatch = True, bindings = b'\<rparr>" by simp
next
  assume "matchElems m ps fs b = Some \<lparr>isMatch = True, bindings = b'\<rparr>"
  then show "\<exists>bs. bs 0 = b \<and> bs (length ps) = b'
        \<and> (\<forall>i<length ps. m (ps ! i) (fs ! i) (bs i) = Some \<lparr>isMatch = True, bindings = bs (Suc i)\<rparr>)"
    using len
  proof (induction ps arbitrary: fs b)
    case Nil
    then show ?case by (intro exI[of _ "\<lambda>i. b"]) simp
  next
    case (Cons p ps)
    from Cons.prems(2) obtain f fs' where fs: "fs = f # fs'" by (cases fs) auto
    from Cons.prems(1) fs obtain r1 where r1: "m p f b = Some r1"
      by (auto split: option.splits)
    with Cons.prems(1) fs have ok: "isMatch r1"
      and rest: "matchElems m ps fs' (bindings r1) = Some \<lparr>isMatch = True, bindings = b'\<rparr>"
      by (auto split: if_splits)
    from ok have r1eq: "r1 = \<lparr>isMatch = True, bindings = bindings r1\<rparr>" by simp
    from Cons.IH[OF rest] Cons.prems(2) fs obtain bs where bs: "bs 0 = bindings r1" "bs (length ps) = b'"
      "\<forall>i<length ps. m (ps ! i) (fs' ! i) (bs i) = Some \<lparr>isMatch = True, bindings = bs (Suc i)\<rparr>"
      by auto
    let ?bs = "\<lambda>i. case i of 0 \<Rightarrow> b | Suc i' \<Rightarrow> bs i'"
    have "\<forall>i<length (p # ps). m ((p # ps) ! i) (fs ! i) (?bs i)
            = Some \<lparr>isMatch = True, bindings = ?bs (Suc i)\<rparr>"
    proof (intro allI impI)
      fix i assume i: "i < length (p # ps)"
      show "m ((p # ps) ! i) (fs ! i) (?bs i) = Some \<lparr>isMatch = True, bindings = ?bs (Suc i)\<rparr>"
      proof (cases i)
        case 0
        with r1 r1eq bs(1) fs show ?thesis by simp
      next
        case (Suc i')
        with i bs(3) fs show ?thesis by simp
      qed
    qed
    moreover have "?bs 0 = b" "?bs (length (p # ps)) = b'" using bs(2) by simp_all
    ultimately show ?case by blast
  qed
qed

lemma matchElems_stops:
  assumes j: "j < length ps" and len: "length ps \<le> length fs"
    and chain: "\<forall>i<j. m (ps ! i) (fs ! i) (bs i) = Some \<lparr>isMatch = True, bindings = bs (Suc i)\<rparr>"
  shows "matchElems m ps fs (bs 0) =
     (case m (ps ! j) (fs ! j) (bs j) of
        None \<Rightarrow> None
      | Some r \<Rightarrow>
          if \<not> isMatch r then Some \<lparr>isMatch = False, bindings = bindings r\<rparr>
          else matchElems m (drop (Suc j) ps) (drop (Suc j) fs) (bindings r))"
proof -
  from j have jl: "j \<le> length ps" by simp
  from j len have jf: "j < length fs" by simp
  have dp: "drop j ps = ps ! j # drop (Suc j) ps" using j by (simp add: Cons_nth_drop_Suc)
  have df: "drop j fs = fs ! j # drop (Suc j) fs" using jf by (simp add: Cons_nth_drop_Suc)
  have "matchElems m ps fs (bs 0) = matchElems m (drop j ps) (drop j fs) (bs j)"
    by (rule matchElems_prefix[OF jl len chain])
  also have "\<dots> = matchElems m (ps ! j # drop (Suc j) ps) (fs ! j # drop (Suc j) fs) (bs j)"
    using dp df by simp
  finally show ?thesis by (simp split: option.splits)
qed

lemma match_no_rest_success:
  assumes none: "filter isRest ps = []"
  shows "match call (Suc d) (Arr ps) (Arr fs) b = Some \<lparr>isMatch = True, bindings = b'\<rparr> \<longleftrightarrow>
     length ps = length fs
     \<and> (\<exists>bs. bs 0 = b \<and> bs (length ps) = b'
          \<and> (\<forall>i<length ps. match call d (ps ! i) (fs ! i) (bs i)
                                 = Some \<lparr>isMatch = True, bindings = bs (Suc i)\<rparr>))"
proof (cases "length ps = length fs")
  case True
  then have "length ps \<le> length fs" by simp
  from matchElems_chain[OF this, of "match call d" b b'] True match_no_rest[OF none, of call d fs b]
  show ?thesis by simp
next
  case False
  with match_no_rest[OF none, of call d fs b] show ?thesis by simp
qed


lemma one_rest_index:
  assumes one: "length (filter isRest ps) = 1"
  shows "findIndex isRest ps = Some (length (takeWhile (\<lambda>p. \<not> isRest p) ps))"
    and "length (takeWhile (\<lambda>p. \<not> isRest p) ps) < length ps"
    and "isRest (ps ! length (takeWhile (\<lambda>p. \<not> isRest p) ps))"
proof -
  from one have "filter isRest ps \<noteq> []" by auto
  then have ex: "\<exists>x\<in>set ps. isRest x" by (simp add: filter_empty_conv)
  then show f: "findIndex isRest ps = Some (length (takeWhile (\<lambda>p. \<not> isRest p) ps))"
    by (simp add: findIndex_takeWhile)
  from findIndex_Some[OF f]
  show "length (takeWhile (\<lambda>p. \<not> isRest p) ps) < length ps"
    and "isRest (ps ! length (takeWhile (\<lambda>p. \<not> isRest p) ps))" by auto
qed

lemma match_one_rest_split:
  assumes one: "length (filter isRest ps) = 1" and k: "k = length (takeWhile (\<lambda>p. \<not> isRest p) ps)"
  shows "match call (Suc d) (Arr ps) (Arr fs) b = Some \<lparr>isMatch = True, bindings = b'\<rparr> \<longleftrightarrow>
     length ps - 1 \<le> length fs
     \<and> (\<exists>bh bt. matchElems (match call d) (take k ps) fs b = Some \<lparr>isMatch = True, bindings = bh\<rparr>
          \<and> matchElems (match call d) (drop (Suc k) ps)
               (drop (length fs - (length ps - Suc k)) fs) bh = Some \<lparr>isMatch = True, bindings = bt\<rparr>
          \<and> b' = setProp bt (drop 3 (case ps ! k of Str s \<Rightarrow> s | _ \<Rightarrow> []))
                    (Arr (take (length fs - (length ps - 1)) (drop k fs))))"
proof -
  note eq = match_one_rest[OF one one_rest_index(1)[OF one, folded k], of call d fs b]
  have rec: "isMatch r \<Longrightarrow> r = \<lparr>isMatch = True, bindings = bindings r\<rparr>" for r :: mres by simp
  show ?thesis
  proof (cases "length fs < length ps - 1")
    case True
    with eq show ?thesis by simp
  next
    case False
    show ?thesis
    proof (cases "matchElems (match call d) (take k ps) fs b")
      case None
      with eq False show ?thesis by simp
    next
      case (Some rh)
      show ?thesis
      proof (cases "isMatch rh")
        case f: False
        with eq False Some show ?thesis by (cases rh) auto
      next
        case True
        note rhok = True
        show ?thesis
        proof (cases "matchElems (match call d) (drop (Suc k) ps)
                        (drop (length fs - (length ps - Suc k)) fs) (bindings rh)")
          case None
          with eq False Some rhok rec[OF rhok] show ?thesis by (cases rh) auto
        next
          case st: (Some rt)
          show ?thesis
          proof (cases "isMatch rt")
            case f: False
            with eq False Some rhok st show ?thesis by (cases rh; cases rt) auto
          next
            case True
            with eq False Some rhok st show ?thesis by (cases rh; cases rt) auto
          qed
        qed
      qed
    qed
  qed
qed

lemma two_chains:
  assumes k: "k < n" and n: "n = length ps" and len: "n - 1 \<le> length fs"
  shows "(\<exists>bh. matchElems m (take k ps) fs b = Some \<lparr>isMatch = True, bindings = bh\<rparr>
            \<and> matchElems m (drop (Suc k) ps) (drop (length fs - (n - Suc k)) fs) bh
                = Some \<lparr>isMatch = True, bindings = bt\<rparr>)
     \<longleftrightarrow> (\<exists>bs. bs 0 = b \<and> bs (n - 1) = bt
            \<and> (\<forall>i<k. m (ps ! i) (fs ! i) (bs i) = Some \<lparr>isMatch = True, bindings = bs (Suc i)\<rparr>)
            \<and> (\<forall>j. k < j \<and> j < n \<longrightarrow>
                  m (ps ! j) (fs ! (length fs + j - n)) (bs (j - 1))
                    = Some \<lparr>isMatch = True, bindings = bs j\<rparr>))"
proof -
  define t where "t = n - Suc k"
  define off where "off = length fs - t"
  have tl: "t \<le> length fs" using k len unfolding t_def by arith
  have kt: "k + t = n - 1" using k unfolding t_def by arith
  have lh: "length (take k ps) \<le> length fs" using k n len by simp
  have lt: "length (drop (Suc k) ps) \<le> length (drop off fs)"
    using k n tl unfolding t_def off_def by simp
  have lk: "length (take k ps) = k" using k n by simp
  have ld: "length (drop (Suc k) ps) = t" using n unfolding t_def by simp
  have hd_nth: "\<And>i. i < k \<Longrightarrow> take k ps ! i = ps ! i" by simp
  have tl_nth: "\<And>i. i < t \<Longrightarrow> drop (Suc k) ps ! i = ps ! (Suc k + i)"
    using n unfolding t_def by simp
  have f_nth: "\<And>i. i < t \<Longrightarrow> drop off fs ! i = fs ! (off + i)"
    using tl unfolding off_def by simp
  have idx: "\<And>i. i < t \<Longrightarrow> off + i = length fs + (Suc k + i) - n"
    using tl k unfolding off_def t_def by arith
  note ch = matchElems_chain[OF lh, of m b, unfolded lk]
    and ct = matchElems_chain[OF lt, of m _ bt, unfolded ld]
  show ?thesis unfolding t_def[symmetric] off_def[symmetric]
  proof
    assume "\<exists>bh. matchElems m (take k ps) fs b = Some \<lparr>isMatch = True, bindings = bh\<rparr>
            \<and> matchElems m (drop (Suc k) ps) (drop off fs) bh = Some \<lparr>isMatch = True, bindings = bt\<rparr>"
    then obtain bh where h: "matchElems m (take k ps) fs b = Some \<lparr>isMatch = True, bindings = bh\<rparr>"
      and tt: "matchElems m (drop (Suc k) ps) (drop off fs) bh = Some \<lparr>isMatch = True, bindings = bt\<rparr>"
      by blast
    from h ch[of bh] obtain bs1 where b1: "bs1 0 = b" "bs1 k = bh"
      "\<forall>i<k. m (take k ps ! i) (fs ! i) (bs1 i) = Some \<lparr>isMatch = True, bindings = bs1 (Suc i)\<rparr>"
      by blast
    from tt ct[of bh] obtain bs2 where b2: "bs2 0 = bh" "bs2 t = bt"
      "\<forall>i<t. m (drop (Suc k) ps ! i) (drop off fs ! i) (bs2 i)
               = Some \<lparr>isMatch = True, bindings = bs2 (Suc i)\<rparr>"
      by blast
    define bs where "bs = (\<lambda>j. if j \<le> k then bs1 j else bs2 (j - k))"
    have z: "bs 0 = b" using b1(1) by (simp add: bs_def)
    have e: "bs (n - 1) = bt"
    proof (cases "t = 0")
      case True
      with kt have "n - 1 = k" by simp
      with True b1(2) b2(1,2) show ?thesis by (simp add: bs_def)
    next
      case False
      with kt have "\<not> n - 1 \<le> k" "n - 1 - k = t" by arith+
      with b2(2) show ?thesis by (simp add: bs_def)
    qed
    have hc: "\<forall>i<k. m (ps ! i) (fs ! i) (bs i) = Some \<lparr>isMatch = True, bindings = bs (Suc i)\<rparr>"
      using b1(3) by (simp add: bs_def)
    have tc: "\<forall>j. k < j \<and> j < n \<longrightarrow>
                m (ps ! j) (fs ! (length fs + j - n)) (bs (j - 1)) = Some \<lparr>isMatch = True, bindings = bs j\<rparr>"
    proof (intro allI impI)
      fix j assume j: "k < j \<and> j < n"
      define i where "i = j - Suc k"
      have it: "i < t" using j unfolding i_def t_def by arith
      have ji: "j = Suc k + i" using j unfolding i_def by arith
      from b2(3) it have "m (drop (Suc k) ps ! i) (drop off fs ! i) (bs2 i)
               = Some \<lparr>isMatch = True, bindings = bs2 (Suc i)\<rparr>" by blast
      then have step: "m (ps ! j) (fs ! (length fs + j - n)) (bs2 i)
               = Some \<lparr>isMatch = True, bindings = bs2 (Suc i)\<rparr>"
        using tl_nth[OF it] f_nth[OF it] idx[OF it] ji by simp
      have "bs (j - 1) = bs2 i"
      proof (cases "i = 0")
        case True
        with ji b1(2) b2(1) show ?thesis by (simp add: bs_def)
      next
        case False
        with ji show ?thesis by (simp add: bs_def)
      qed
      moreover have "bs j = bs2 (Suc i)" using ji by (simp add: bs_def)
      ultimately show "m (ps ! j) (fs ! (length fs + j - n)) (bs (j - 1))
                         = Some \<lparr>isMatch = True, bindings = bs j\<rparr>"
        using step by simp
    qed
    from z e hc tc show "\<exists>bs. bs 0 = b \<and> bs (n - 1) = bt
            \<and> (\<forall>i<k. m (ps ! i) (fs ! i) (bs i) = Some \<lparr>isMatch = True, bindings = bs (Suc i)\<rparr>)
            \<and> (\<forall>j. k < j \<and> j < n \<longrightarrow>
                  m (ps ! j) (fs ! (length fs + j - n)) (bs (j - 1))
                    = Some \<lparr>isMatch = True, bindings = bs j\<rparr>)"
      by blast
  next
    assume "\<exists>bs. bs 0 = b \<and> bs (n - 1) = bt
            \<and> (\<forall>i<k. m (ps ! i) (fs ! i) (bs i) = Some \<lparr>isMatch = True, bindings = bs (Suc i)\<rparr>)
            \<and> (\<forall>j. k < j \<and> j < n \<longrightarrow>
                  m (ps ! j) (fs ! (length fs + j - n)) (bs (j - 1))
                    = Some \<lparr>isMatch = True, bindings = bs j\<rparr>)"
    then obtain bs where bs: "bs 0 = b" "bs (n - 1) = bt"
      "\<forall>i<k. m (ps ! i) (fs ! i) (bs i) = Some \<lparr>isMatch = True, bindings = bs (Suc i)\<rparr>"
      "\<forall>j. k < j \<and> j < n \<longrightarrow>
          m (ps ! j) (fs ! (length fs + j - n)) (bs (j - 1)) = Some \<lparr>isMatch = True, bindings = bs j\<rparr>"
      by blast
    have h: "matchElems m (take k ps) fs b = Some \<lparr>isMatch = True, bindings = bs k\<rparr>"
      using bs(1,3) by (subst ch) (intro exI[of _ bs], simp)
    have "\<forall>i<t. m (drop (Suc k) ps ! i) (drop off fs ! i) (bs (k + i))
               = Some \<lparr>isMatch = True, bindings = bs (k + Suc i)\<rparr>"
    proof (intro allI impI)
      fix i assume it: "i < t"
      then have "k < Suc k + i \<and> Suc k + i < n" using k unfolding t_def by arith
      with bs(4) have "m (ps ! (Suc k + i)) (fs ! (length fs + (Suc k + i) - n)) (bs (Suc k + i - 1))
          = Some \<lparr>isMatch = True, bindings = bs (Suc k + i)\<rparr>" by blast
      then show "m (drop (Suc k) ps ! i) (drop off fs ! i) (bs (k + i))
               = Some \<lparr>isMatch = True, bindings = bs (k + Suc i)\<rparr>"
        using tl_nth[OF it] f_nth[OF it] idx[OF it] by simp
    qed
    then have "matchElems m (drop (Suc k) ps) (drop off fs) (bs k)
                 = Some \<lparr>isMatch = True, bindings = bt\<rparr>"
      using bs(2) kt by (subst ct) (intro exI[of _ "\<lambda>i. bs (k + i)"], simp)
    with h show "\<exists>bh. matchElems m (take k ps) fs b = Some \<lparr>isMatch = True, bindings = bh\<rparr>
            \<and> matchElems m (drop (Suc k) ps) (drop off fs) bh = Some \<lparr>isMatch = True, bindings = bt\<rparr>"
      by blast
  qed
qed

lemma match_one_rest_success:
  assumes one: "length (filter isRest ps) = 1" and k: "k = length (takeWhile (\<lambda>p. \<not> isRest p) ps)"
  shows "match call (Suc d) (Arr ps) (Arr fs) b = Some \<lparr>isMatch = True, bindings = b'\<rparr> \<longleftrightarrow>
     length ps - 1 \<le> length fs
     \<and> (\<exists>bs. bs 0 = b
          \<and> (\<forall>i<k. match call d (ps ! i) (fs ! i) (bs i) = Some \<lparr>isMatch = True, bindings = bs (Suc i)\<rparr>)
          \<and> (\<forall>j. k < j \<and> j < length ps \<longrightarrow>
                match call d (ps ! j) (fs ! (length fs + j - length ps)) (bs (j - 1))
                  = Some \<lparr>isMatch = True, bindings = bs j\<rparr>)
          \<and> b' = setProp (bs (length ps - 1)) (drop 3 (case ps ! k of Str s \<Rightarrow> s | _ \<Rightarrow> []))
                    (Arr (take (length fs - (length ps - 1)) (drop k fs))))"
proof (cases "length ps - 1 \<le> length fs")
  case False
  with match_one_rest_split[OF one k, of call d fs b b'] show ?thesis by simp
next
  case True
  from one_rest_index(2)[OF one, folded k] have kn: "k < length ps" .
  note tc = two_chains[OF kn refl True, of "match call d" b]
  let ?v = "\<lambda>bt. setProp bt (drop 3 (case ps ! k of Str s \<Rightarrow> s | _ \<Rightarrow> []))
                    (Arr (take (length fs - (length ps - 1)) (drop k fs)))"
  have "match call (Suc d) (Arr ps) (Arr fs) b = Some \<lparr>isMatch = True, bindings = b'\<rparr> \<longleftrightarrow>
     (\<exists>bt. (\<exists>bh. matchElems (match call d) (take k ps) fs b = Some \<lparr>isMatch = True, bindings = bh\<rparr>
          \<and> matchElems (match call d) (drop (Suc k) ps)
               (drop (length fs - (length ps - Suc k)) fs) bh = Some \<lparr>isMatch = True, bindings = bt\<rparr>)
          \<and> b' = ?v bt)"
    using match_one_rest_split[OF one k, of call d fs b b'] True by blast
  also have "\<dots> \<longleftrightarrow> (\<exists>bt. (\<exists>bs. bs 0 = b \<and> bs (length ps - 1) = bt
            \<and> (\<forall>i<k. match call d (ps ! i) (fs ! i) (bs i) = Some \<lparr>isMatch = True, bindings = bs (Suc i)\<rparr>)
            \<and> (\<forall>j. k < j \<and> j < length ps \<longrightarrow>
                  match call d (ps ! j) (fs ! (length fs + j - length ps)) (bs (j - 1))
                    = Some \<lparr>isMatch = True, bindings = bs j\<rparr>)) \<and> b' = ?v bt)"
    by (simp only: tc)
  also have "\<dots> \<longleftrightarrow> (\<exists>bs. bs 0 = b
          \<and> (\<forall>i<k. match call d (ps ! i) (fs ! i) (bs i) = Some \<lparr>isMatch = True, bindings = bs (Suc i)\<rparr>)
          \<and> (\<forall>j. k < j \<and> j < length ps \<longrightarrow>
                match call d (ps ! j) (fs ! (length fs + j - length ps)) (bs (j - 1))
                  = Some \<lparr>isMatch = True, bindings = bs j\<rparr>)
          \<and> b' = ?v (bs (length ps - 1)))"
    by blast
  finally show ?thesis using True by simp
qed

text \<open>
  C4. Array patterns against arrays. A rest marker is a string starting with \<open>...\<close>.

  With more than one marker the pattern matches nothing. With exactly one, at position
  \<open>k\<close> (the number of elements before it), a candidate shorter than the pattern without
  its marker is rejected, and the match succeeds with bindings \<open>b'\<close> exactly when the
  candidate is long enough and the bindings can be threaded through the elements: each
  element before the marker matches the candidate element at the same position, each
  element after it the candidate element at the same distance from the end, every match
  starting from the bindings the one before it gave, and \<open>b'\<close> is the last of these
  bindings with the name after the marker bound to the slice between head and tail, which
  may be empty. With no marker the lengths must be equal, and the match succeeds exactly
  when the bindings can be threaded through all elements position by position.

  The two branches are also given as equations in the element loop \<open>matchElems\<close>, which
  fix the result of a failing match too, and the element loop is characterised: it
  succeeds exactly along a thread of bindings, and it stops at the first element that
  fails or does not return, with the bindings that failure returned.

  So \<open>['?a', '...?mid', '?b']\<close> matches \<open>[1,2,3,4,5]\<close> with \<open>?a = 1\<close>, \<open>?mid = [2,3,4]\<close>,
  \<open>?b = 5\<close>, matches \<open>[1,2]\<close> with the empty slice, and does not match \<open>[1]\<close>; and
  \<open>['?a', '?b', '?c']\<close> matches \<open>[1,2,3]\<close> and does not match \<open>[1,2]\<close>.
\<close>

theorem sequence_destructuring:
  "(1 < length (filter isRest ps) \<longrightarrow>
      match call (Suc d) (Arr ps) f b = Some \<lparr>isMatch = False, bindings = b\<rparr>)
   \<and> (length (filter isRest ps) = 1 \<and> length fs < length ps - 1 \<longrightarrow>
      match call (Suc d) (Arr ps) (Arr fs) b = Some \<lparr>isMatch = False, bindings = b\<rparr>)
   \<and> (length (filter isRest ps) = 1 \<and> k = length (takeWhile (\<lambda>p. \<not> isRest p) ps) \<longrightarrow>
      k < length ps \<and> (\<exists>name. ps ! k = Str (''...'' @ name)))
   \<and> (length (filter isRest ps) = 1 \<and> k = length (takeWhile (\<lambda>p. \<not> isRest p) ps)
        \<and> ps ! k = Str (''...'' @ name) \<longrightarrow>
      (match call (Suc d) (Arr ps) (Arr fs) b = Some \<lparr>isMatch = True, bindings = b'\<rparr> \<longleftrightarrow>
         length ps - 1 \<le> length fs
         \<and> (\<exists>bs. bs 0 = b
              \<and> (\<forall>i<k. match call d (ps ! i) (fs ! i) (bs i)
                          = Some \<lparr>isMatch = True, bindings = bs (Suc i)\<rparr>)
              \<and> (\<forall>j. k < j \<and> j < length ps \<longrightarrow>
                    match call d (ps ! j) (fs ! (length fs + j - length ps)) (bs (j - 1))
                      = Some \<lparr>isMatch = True, bindings = bs j\<rparr>)
              \<and> b' = setProp (bs (length ps - 1)) name
                        (Arr (take (length fs - (length ps - 1)) (drop k fs))))))
   \<and> (filter isRest ps = [] \<and> length ps \<noteq> length fs \<longrightarrow>
      match call (Suc d) (Arr ps) (Arr fs) b = Some \<lparr>isMatch = False, bindings = b\<rparr>)
   \<and> (filter isRest ps = [] \<longrightarrow>
      (match call (Suc d) (Arr ps) (Arr fs) b = Some \<lparr>isMatch = True, bindings = b'\<rparr> \<longleftrightarrow>
         length ps = length fs
         \<and> (\<exists>bs. bs 0 = b \<and> bs (length ps) = b'
              \<and> (\<forall>i<length ps. match call d (ps ! i) (fs ! i) (bs i)
                                     = Some \<lparr>isMatch = True, bindings = bs (Suc i)\<rparr>))))
   \<and> (length (filter isRest ps) = 1 \<and> k = length (takeWhile (\<lambda>p. \<not> isRest p) ps) \<longrightarrow>
      match call (Suc d) (Arr ps) (Arr fs) b =
        (if length fs < length ps - 1 then Some \<lparr>isMatch = False, bindings = b\<rparr>
         else case matchElems (match call d) (take k ps) fs b of
                None \<Rightarrow> None
              | Some rh \<Rightarrow>
                  if \<not> isMatch rh then Some rh
                  else (case matchElems (match call d) (drop (Suc k) ps)
                               (drop (length fs - (length ps - Suc k)) fs) (bindings rh) of
                          None \<Rightarrow> None
                        | Some rt \<Rightarrow>
                            if \<not> isMatch rt then Some rt
                            else Some \<lparr>isMatch = True,
                                   bindings = setProp (bindings rt)
                                     (drop 3 (case ps ! k of Str s \<Rightarrow> s | _ \<Rightarrow> []))
                                     (Arr (take (length fs - (length ps - 1)) (drop k fs)))\<rparr>)))
   \<and> (filter isRest ps = [] \<longrightarrow>
      match call (Suc d) (Arr ps) (Arr fs) b =
        (if length ps \<noteq> length fs then Some \<lparr>isMatch = False, bindings = b\<rparr>
         else matchElems (match call d) ps fs b))
   \<and> (length qs \<le> length gs \<longrightarrow>
      (matchElems m qs gs b = Some \<lparr>isMatch = True, bindings = b'\<rparr> \<longleftrightarrow>
         (\<exists>bs. bs 0 = b \<and> bs (length qs) = b'
            \<and> (\<forall>i<length qs. m (qs ! i) (gs ! i) (bs i)
                                 = Some \<lparr>isMatch = True, bindings = bs (Suc i)\<rparr>))))
   \<and> (n < length qs \<and> length qs \<le> length gs
        \<and> (\<forall>i<n. m (qs ! i) (gs ! i) (th i) = Some \<lparr>isMatch = True, bindings = th (Suc i)\<rparr>) \<longrightarrow>
      matchElems m qs gs (th 0) =
        (case m (qs ! n) (gs ! n) (th n) of
           None \<Rightarrow> None
         | Some r \<Rightarrow>
             if \<not> isMatch r then Some \<lparr>isMatch = False, bindings = bindings r\<rparr>
             else matchElems m (drop (Suc n) qs) (drop (Suc n) gs) (bindings r)))
   \<and> match call (Suc (Suc d)) (Arr [Str ''?a'', Str ''...?mid'', Str ''?b''])
        (Arr [Num (Fin 1), Num (Fin 2), Num (Fin 3), Num (Fin 4), Num (Fin 5)]) [] =
      Some \<lparr>isMatch = True, bindings =
        [(''?a'', Num (Fin 1)), (''?b'', Num (Fin 5)),
         (''?mid'', Arr [Num (Fin 2), Num (Fin 3), Num (Fin 4)])]\<rparr>
   \<and> match call (Suc (Suc d)) (Arr [Str ''?a'', Str ''...?mid'', Str ''?b''])
        (Arr [Num (Fin 1), Num (Fin 2)]) [] =
      Some \<lparr>isMatch = True, bindings =
        [(''?a'', Num (Fin 1)), (''?b'', Num (Fin 2)), (''?mid'', Arr [])]\<rparr>
   \<and> match call (Suc (Suc d)) (Arr [Str ''?a'', Str ''...?mid'', Str ''?b'']) (Arr [Num (Fin 1)]) [] =
      Some \<lparr>isMatch = False, bindings = []\<rparr>
   \<and> match call (Suc (Suc d)) (Arr [Str ''?a'', Str ''?b'', Str ''?c''])
        (Arr [Num (Fin 1), Num (Fin 2), Num (Fin 3)]) [] =
      Some \<lparr>isMatch = True, bindings =
        [(''?a'', Num (Fin 1)), (''?b'', Num (Fin 2)), (''?c'', Num (Fin 3))]\<rparr>
   \<and> match call (Suc (Suc d)) (Arr [Str ''?a'', Str ''?b'', Str ''?c''])
        (Arr [Num (Fin 1), Num (Fin 2)]) [] =
      Some \<lparr>isMatch = False, bindings = []\<rparr>"
proof -
  have c1: "1 < length (filter isRest ps) \<longrightarrow>
      match call (Suc d) (Arr ps) f b = Some \<lparr>isMatch = False, bindings = b\<rparr>"
    using match_many_rest[of ps call d f b] by blast
  have c2: "length (filter isRest ps) = 1 \<and> length fs < length ps - 1 \<longrightarrow>
      match call (Suc d) (Arr ps) (Arr fs) b = Some \<lparr>isMatch = False, bindings = b\<rparr>"
    using match_one_rest[OF _ one_rest_index(1), of ps call d fs b] by simp
  have c3: "length (filter isRest ps) = 1 \<and> k = length (takeWhile (\<lambda>p. \<not> isRest p) ps) \<longrightarrow>
      k < length ps \<and> (\<exists>name. ps ! k = Str (''...'' @ name))"
  proof
    assume h: "length (filter isRest ps) = 1 \<and> k = length (takeWhile (\<lambda>p. \<not> isRest p) ps)"
    from one_rest_index(2,3)[of ps] h have kl: "k < length ps" and r: "isRest (ps ! k)" by auto
    from r obtain s where s: "ps ! k = Str s" "startsWith s ''...''"
      by (auto simp: isRest_def split: jsval.splits)
    then have "s = ''...'' @ drop 3 s"
      by (metis append_take_drop_id length_Cons list.size(3) numeral_3_eq_3 startsWith_def)
    with s(1) kl show "k < length ps \<and> (\<exists>name. ps ! k = Str (''...'' @ name))" by auto
  qed
  have c4: "length (filter isRest ps) = 1 \<and> k = length (takeWhile (\<lambda>p. \<not> isRest p) ps)
        \<and> ps ! k = Str (''...'' @ name) \<longrightarrow>
      (match call (Suc d) (Arr ps) (Arr fs) b = Some \<lparr>isMatch = True, bindings = b'\<rparr> \<longleftrightarrow>
         length ps - 1 \<le> length fs
         \<and> (\<exists>bs. bs 0 = b
              \<and> (\<forall>i<k. match call d (ps ! i) (fs ! i) (bs i)
                          = Some \<lparr>isMatch = True, bindings = bs (Suc i)\<rparr>)
              \<and> (\<forall>j. k < j \<and> j < length ps \<longrightarrow>
                    match call d (ps ! j) (fs ! (length fs + j - length ps)) (bs (j - 1))
                      = Some \<lparr>isMatch = True, bindings = bs j\<rparr>)
              \<and> b' = setProp (bs (length ps - 1)) name
                        (Arr (take (length fs - (length ps - 1)) (drop k fs)))))"
  proof
    assume h: "length (filter isRest ps) = 1 \<and> k = length (takeWhile (\<lambda>p. \<not> isRest p) ps)
        \<and> ps ! k = Str (''...'' @ name)"
    then have pk: "ps ! k = Str (''...'' @ name)" by blast
    have nm: "drop 3 (case ps ! k of Str s \<Rightarrow> s | _ \<Rightarrow> []) = name" by (simp add: pk)
    from h match_one_rest_success[of ps k call d fs b b', unfolded nm]
    show "match call (Suc d) (Arr ps) (Arr fs) b = Some \<lparr>isMatch = True, bindings = b'\<rparr> \<longleftrightarrow>
         length ps - 1 \<le> length fs
         \<and> (\<exists>bs. bs 0 = b
              \<and> (\<forall>i<k. match call d (ps ! i) (fs ! i) (bs i)
                          = Some \<lparr>isMatch = True, bindings = bs (Suc i)\<rparr>)
              \<and> (\<forall>j. k < j \<and> j < length ps \<longrightarrow>
                    match call d (ps ! j) (fs ! (length fs + j - length ps)) (bs (j - 1))
                      = Some \<lparr>isMatch = True, bindings = bs j\<rparr>)
              \<and> b' = setProp (bs (length ps - 1)) name
                        (Arr (take (length fs - (length ps - 1)) (drop k fs))))"
      by blast
  qed
  have c5: "filter isRest ps = [] \<and> length ps \<noteq> length fs \<longrightarrow>
      match call (Suc d) (Arr ps) (Arr fs) b = Some \<lparr>isMatch = False, bindings = b\<rparr>"
    using match_no_rest[of ps call d fs b] by simp
  have c6: "filter isRest ps = [] \<longrightarrow>
      (match call (Suc d) (Arr ps) (Arr fs) b = Some \<lparr>isMatch = True, bindings = b'\<rparr> \<longleftrightarrow>
         length ps = length fs
         \<and> (\<exists>bs. bs 0 = b \<and> bs (length ps) = b'
              \<and> (\<forall>i<length ps. match call d (ps ! i) (fs ! i) (bs i)
                                     = Some \<lparr>isMatch = True, bindings = bs (Suc i)\<rparr>)))"
    using match_no_rest_success[of ps call d fs b b'] by blast
  have c7: "length (filter isRest ps) = 1 \<and> k = length (takeWhile (\<lambda>p. \<not> isRest p) ps) \<longrightarrow>
      match call (Suc d) (Arr ps) (Arr fs) b =
        (if length fs < length ps - 1 then Some \<lparr>isMatch = False, bindings = b\<rparr>
         else case matchElems (match call d) (take k ps) fs b of
                None \<Rightarrow> None
              | Some rh \<Rightarrow>
                  if \<not> isMatch rh then Some rh
                  else (case matchElems (match call d) (drop (Suc k) ps)
                               (drop (length fs - (length ps - Suc k)) fs) (bindings rh) of
                          None \<Rightarrow> None
                        | Some rt \<Rightarrow>
                            if \<not> isMatch rt then Some rt
                            else Some \<lparr>isMatch = True,
                                   bindings = setProp (bindings rt)
                                     (drop 3 (case ps ! k of Str s \<Rightarrow> s | _ \<Rightarrow> []))
                                     (Arr (take (length fs - (length ps - 1)) (drop k fs)))\<rparr>))"
    using match_one_rest[OF _ one_rest_index(1), of ps call d fs b] by blast
  have c8: "filter isRest ps = [] \<longrightarrow>
      match call (Suc d) (Arr ps) (Arr fs) b =
        (if length ps \<noteq> length fs then Some \<lparr>isMatch = False, bindings = b\<rparr>
         else matchElems (match call d) ps fs b)"
    using match_no_rest[of ps call d fs b] by blast
  have c9: "length qs \<le> length gs \<longrightarrow>
      (matchElems m qs gs b = Some \<lparr>isMatch = True, bindings = b'\<rparr> \<longleftrightarrow>
         (\<exists>bs. bs 0 = b \<and> bs (length qs) = b'
            \<and> (\<forall>i<length qs. m (qs ! i) (gs ! i) (bs i)
                                 = Some \<lparr>isMatch = True, bindings = bs (Suc i)\<rparr>)))"
    using matchElems_chain[of qs gs m b b'] by blast
  have c10: "n < length qs \<and> length qs \<le> length gs
        \<and> (\<forall>i<n. m (qs ! i) (gs ! i) (th i) = Some \<lparr>isMatch = True, bindings = th (Suc i)\<rparr>) \<longrightarrow>
      matchElems m qs gs (th 0) =
        (case m (qs ! n) (gs ! n) (th n) of
           None \<Rightarrow> None
         | Some r \<Rightarrow>
             if \<not> isMatch r then Some \<lparr>isMatch = False, bindings = bindings r\<rparr>
             else matchElems m (drop (Suc n) qs) (drop (Suc n) gs) (bindings r))"
    using matchElems_stops[of n qs gs m th] by blast
  have e1: "match call (Suc (Suc d)) (Arr [Str ''?a'', Str ''...?mid'', Str ''?b''])
        (Arr [Num (Fin 1), Num (Fin 2), Num (Fin 3), Num (Fin 4), Num (Fin 5)]) [] =
      Some \<lparr>isMatch = True, bindings =
        [(''?a'', Num (Fin 1)), (''?b'', Num (Fin 5)),
         (''?mid'', Arr [Num (Fin 2), Num (Fin 3), Num (Fin 4)])]\<rparr>"
    by (simp add: startsWith_def getProp_def setProp_def isRest_def)
  have e2: "match call (Suc (Suc d)) (Arr [Str ''?a'', Str ''...?mid'', Str ''?b''])
        (Arr [Num (Fin 1), Num (Fin 2)]) [] =
      Some \<lparr>isMatch = True, bindings =
        [(''?a'', Num (Fin 1)), (''?b'', Num (Fin 2)), (''?mid'', Arr [])]\<rparr>"
    by (simp add: startsWith_def getProp_def setProp_def isRest_def)
  have e3: "match call (Suc (Suc d)) (Arr [Str ''?a'', Str ''...?mid'', Str ''?b'']) (Arr [Num (Fin 1)]) [] =
      Some \<lparr>isMatch = False, bindings = []\<rparr>"
    by (simp add: startsWith_def getProp_def setProp_def isRest_def)
  have e4: "match call (Suc (Suc d)) (Arr [Str ''?a'', Str ''?b'', Str ''?c''])
        (Arr [Num (Fin 1), Num (Fin 2), Num (Fin 3)]) [] =
      Some \<lparr>isMatch = True, bindings =
        [(''?a'', Num (Fin 1)), (''?b'', Num (Fin 2)), (''?c'', Num (Fin 3))]\<rparr>"
    by (simp add: startsWith_def getProp_def setProp_def isRest_def)
  have e5: "match call (Suc (Suc d)) (Arr [Str ''?a'', Str ''?b'', Str ''?c''])
        (Arr [Num (Fin 1), Num (Fin 2)]) [] =
      Some \<lparr>isMatch = False, bindings = []\<rparr>"
    by (simp add: startsWith_def getProp_def setProp_def isRest_def)
  show ?thesis
    by (intro conjI c1 c2 c3 c4 c5 c6 c7 c8 c9 c10 e1 e2 e3 e4 e5)
qed

theorem sequence_destructuring_witness:
  "match (\<lambda>n v. None) (Suc (Suc 0)) (Arr [Str ''...?a'', Str ''...?b'']) (Arr [Num (Fin 1), Num (Fin 2)]) []
       = Some \<lparr>isMatch = False, bindings = []\<rparr>
   \<and> match (\<lambda>n v. None) (Suc (Suc 0)) (Arr [Str ''?a'', Str ''...?mid'', Str ''?b'']) (Arr [Num (Fin 1)]) []
       = Some \<lparr>isMatch = False, bindings = []\<rparr>
   \<and> (\<exists>name. [Str ''?a'', Str ''...?mid'', Str ''?b''] ! 1 = Str (''...'' @ name))
   \<and> (\<exists>bs. bs (0::nat) = []
         \<and> [(''?a'', Num (Fin 1)), (''?b'', Num (Fin 5)), (''?mid'', Arr [Num (Fin 2), Num (Fin 3), Num (Fin 4)])]
             = setProp (bs 2) ''?mid'' (Arr [Num (Fin 2), Num (Fin 3), Num (Fin 4)]))
   \<and> match (\<lambda>n v. None) (Suc (Suc 0)) (Arr [Str ''?a'', Str ''?b'']) (Arr [Num (Fin 1)]) []
       = Some \<lparr>isMatch = False, bindings = []\<rparr>
   \<and> (\<exists>bs. bs (0::nat) = [] \<and> bs 3 = [(''?a'', Num (Fin 1)), (''?b'', Num (Fin 2)), (''?c'', Num (Fin 3))])
   \<and> match (\<lambda>n v. None) (Suc (Suc 0)) (Arr [Str ''?a'', Str ''...?mid'', Str ''?b''])
        (Arr [Num (Fin 1), Num (Fin 2)]) []
       = Some \<lparr>isMatch = True, bindings = [(''?a'', Num (Fin 1)), (''?b'', Num (Fin 2)), (''?mid'', Arr [])]\<rparr>
   \<and> match (\<lambda>n v. None) (Suc (Suc 0)) (Arr [Str ''?a'', Str ''?b'']) (Arr [Num (Fin 1), Num (Fin 2)]) []
       = matchElems (match (\<lambda>n v. None) (Suc 0)) [Str ''?a'', Str ''?b''] [Num (Fin 1), Num (Fin 2)] []
   \<and> (\<exists>bs. bs (0::nat) = [] \<and> bs 1 = [(''?a'', Num (Fin 1))])
   \<and> matchElems (match (\<lambda>n v. None) (Suc 0)) [Num (Fin 1), Str ''?a''] [Num (Fin 2), Num (Fin 3)] []
       = Some \<lparr>isMatch = False, bindings = []\<rparr>"
proof -
  let ?N = "\<lambda>(n::nat) (v::jsval). (None::jsval option)"
  let ?one = "[Str ''?a'', Str ''...?mid'', Str ''?b'']"
  let ?five = "[Num (Fin 1), Num (Fin 2), Num (Fin 3), Num (Fin 4), Num (Fin 5)]"
  let ?B = "[(''?a'', Num (Fin 1)), (''?b'', Num (Fin 5)), (''?mid'', Arr [Num (Fin 2), Num (Fin 3), Num (Fin 4)])]"
  have two: "1 < length (filter isRest [Str ''...?a'', Str ''...?b''])"
    by (simp add: isRest_def startsWith_def)
  have one: "length (filter isRest ?one) = 1 \<and> 1 = length (takeWhile (\<lambda>p. \<not> isRest p) ?one)
             \<and> ?one ! 1 = Str (''...'' @ ''?mid'')"
    by (simp add: isRest_def startsWith_def)
  have none2: "filter isRest [Str ''?a'', Str ''?b''] = []"
    by (simp add: isRest_def startsWith_def)
  have none3: "filter isRest [Str ''?a'', Str ''?b'', Str ''?c''] = []"
    by (simp add: isRest_def startsWith_def)
  have w1: "match ?N (Suc (Suc 0)) (Arr [Str ''...?a'', Str ''...?b'']) (Arr [Num (Fin 1), Num (Fin 2)]) []
       = Some \<lparr>isMatch = False, bindings = []\<rparr>"
    using sequence_destructuring[where ps="[Str ''...?a'', Str ''...?b'']" and call="?N" and d="Suc 0"
            and f="Arr [Num (Fin 1), Num (Fin 2)]" and b="[]", THEN conjunct1] two
    by blast
  have short: "length [Num (Fin 1)] < length ?one - 1" by simp
  have w2: "match ?N (Suc (Suc 0)) (Arr ?one) (Arr [Num (Fin 1)]) [] = Some \<lparr>isMatch = False, bindings = []\<rparr>"
    using sequence_destructuring[where ps="?one" and call="?N" and d="Suc 0" and fs="[Num (Fin 1)]"
            and b="[]", THEN conjunct2, THEN conjunct1] one short
    by blast
  have w3: "\<exists>name. ?one ! 1 = Str (''...'' @ name)"
    using sequence_destructuring[where ps="?one" and k=1, THEN conjunct2, THEN conjunct2, THEN conjunct1] one by blast
  have m5: "match ?N (Suc (Suc 0)) (Arr ?one) (Arr ?five) [] = Some \<lparr>isMatch = True, bindings = ?B\<rparr>"
    by (simp add: startsWith_def getProp_def setProp_def isRest_def)
  from sequence_destructuring[where ps="?one" and call="?N" and d="Suc 0" and fs="?five"
            and b="[]" and k=1 and name="''?mid''" and b'="?B", THEN conjunct2, THEN conjunct2, THEN conjunct2, THEN conjunct1] one m5
  obtain bs4 where b4: "bs4 0 = []"
    "?B = setProp (bs4 (length ?one - 1)) ''?mid'' (Arr (take (length ?five - (length ?one - 1)) (drop 1 ?five)))"
    by blast
  have w4: "\<exists>bs. bs (0::nat) = [] \<and> ?B = setProp (bs 2) ''?mid'' (Arr [Num (Fin 2), Num (Fin 3), Num (Fin 4)])"
    using b4 by - (rule exI[of _ bs4], simp add: numeral_2_eq_2 numeral_3_eq_3)
  have differ: "length [Str ''?a'', Str ''?b''] \<noteq> length [Num (Fin 1)]" by simp
  have w5: "match ?N (Suc (Suc 0)) (Arr [Str ''?a'', Str ''?b'']) (Arr [Num (Fin 1)]) []
       = Some \<lparr>isMatch = False, bindings = []\<rparr>"
    using sequence_destructuring[where ps="[Str ''?a'', Str ''?b'']" and call="?N" and d="Suc 0"
            and fs="[Num (Fin 1)]" and b="[]", THEN conjunct2, THEN conjunct2, THEN conjunct2, THEN conjunct2, THEN conjunct1] none2 differ
    by blast
  have m3: "match ?N (Suc (Suc 0)) (Arr [Str ''?a'', Str ''?b'', Str ''?c''])
              (Arr [Num (Fin 1), Num (Fin 2), Num (Fin 3)]) []
            = Some \<lparr>isMatch = True, bindings = [(''?a'', Num (Fin 1)), (''?b'', Num (Fin 2)), (''?c'', Num (Fin 3))]\<rparr>"
    by (simp add: startsWith_def getProp_def setProp_def isRest_def)
  from sequence_destructuring[where ps="[Str ''?a'', Str ''?b'', Str ''?c'']" and call="?N" and d="Suc 0"
            and fs="[Num (Fin 1), Num (Fin 2), Num (Fin 3)]" and b="[]"
            and b'="[(''?a'', Num (Fin 1)), (''?b'', Num (Fin 2)), (''?c'', Num (Fin 3))]", THEN conjunct2, THEN conjunct2, THEN conjunct2, THEN conjunct2, THEN conjunct2, THEN conjunct1] none3 m3
  obtain bs6 where b6: "bs6 0 = []"
    "bs6 (length [Str ''?a'', Str ''?b'', Str ''?c''])
       = [(''?a'', Num (Fin 1)), (''?b'', Num (Fin 2)), (''?c'', Num (Fin 3))]"
    by blast
  have w6: "\<exists>bs. bs (0::nat) = [] \<and> bs 3 = [(''?a'', Num (Fin 1)), (''?b'', Num (Fin 2)), (''?c'', Num (Fin 3))]"
    using b6 by - (rule exI[of _ bs6], simp add: numeral_2_eq_2 numeral_3_eq_3)
  have k1: "length (filter isRest ?one) = 1 \<and> 1 = length (takeWhile (\<lambda>p. \<not> isRest p) ?one)"
    using one by blast
  from sequence_destructuring[where ps="?one" and call="?N" and d="Suc 0"
            and fs="[Num (Fin 1), Num (Fin 2)]" and b="[]" and k=1, THEN conjunct2, THEN conjunct2, THEN conjunct2, THEN conjunct2, THEN conjunct2, THEN conjunct2, THEN conjunct1] k1
  have eq7: "match ?N (Suc (Suc 0)) (Arr ?one) (Arr [Num (Fin 1), Num (Fin 2)]) [] =
        (if length [Num (Fin 1), Num (Fin 2)] < length ?one - 1 then Some \<lparr>isMatch = False, bindings = []\<rparr>
         else case matchElems (match ?N (Suc 0)) (take 1 ?one) [Num (Fin 1), Num (Fin 2)] [] of
                None \<Rightarrow> None
              | Some rh \<Rightarrow>
                  if \<not> isMatch rh then Some rh
                  else (case matchElems (match ?N (Suc 0)) (drop (Suc 1) ?one)
                               (drop (length [Num (Fin 1), Num (Fin 2)] - (length ?one - Suc 1))
                                  [Num (Fin 1), Num (Fin 2)]) (bindings rh) of
                          None \<Rightarrow> None
                        | Some rt \<Rightarrow>
                            if \<not> isMatch rt then Some rt
                            else Some \<lparr>isMatch = True,
                                   bindings = setProp (bindings rt)
                                     (drop 3 (case ?one ! 1 of Str s \<Rightarrow> s | _ \<Rightarrow> []))
                                     (Arr (take (length [Num (Fin 1), Num (Fin 2)] - (length ?one - 1))
                                             (drop 1 [Num (Fin 1), Num (Fin 2)])))\<rparr>))"
    by blast
  have w7: "match ?N (Suc (Suc 0)) (Arr ?one) (Arr [Num (Fin 1), Num (Fin 2)]) []
       = Some \<lparr>isMatch = True, bindings = [(''?a'', Num (Fin 1)), (''?b'', Num (Fin 2)), (''?mid'', Arr [])]\<rparr>"
    unfolding eq7 by (simp add: startsWith_def getProp_def setProp_def)
  have same: "\<not> length [Str ''?a'', Str ''?b''] \<noteq> length [Num (Fin 1), Num (Fin 2)]" by simp
  from sequence_destructuring[where ps="[Str ''?a'', Str ''?b'']" and call="?N" and d="Suc 0"
            and fs="[Num (Fin 1), Num (Fin 2)]" and b="[]", THEN conjunct2, THEN conjunct2, THEN conjunct2, THEN conjunct2, THEN conjunct2, THEN conjunct2, THEN conjunct2, THEN conjunct1] none2
  have eq8: "match ?N (Suc (Suc 0)) (Arr [Str ''?a'', Str ''?b'']) (Arr [Num (Fin 1), Num (Fin 2)]) [] =
        (if length [Str ''?a'', Str ''?b''] \<noteq> length [Num (Fin 1), Num (Fin 2)]
         then Some \<lparr>isMatch = False, bindings = []\<rparr>
         else matchElems (match ?N (Suc 0)) [Str ''?a'', Str ''?b''] [Num (Fin 1), Num (Fin 2)] [])"
    by blast
  have w8: "match ?N (Suc (Suc 0)) (Arr [Str ''?a'', Str ''?b'']) (Arr [Num (Fin 1), Num (Fin 2)]) []
       = matchElems (match ?N (Suc 0)) [Str ''?a'', Str ''?b''] [Num (Fin 1), Num (Fin 2)] []"
    unfolding eq8 using same by (simp only: if_False)
  have me: "matchElems (match ?N (Suc 0)) [Str ''?a''] [Num (Fin 1)] []
              = Some \<lparr>isMatch = True, bindings = [(''?a'', Num (Fin 1))]\<rparr>"
    by (simp add: startsWith_def getProp_def setProp_def)
  have le9: "length [Str ''?a''] \<le> length [Num (Fin 1)]" by simp
  from sequence_destructuring[where qs="[Str ''?a'']" and gs="[Num (Fin 1)]"
            and m="match ?N (Suc 0)" and b="[]" and b'="[(''?a'', Num (Fin 1))]", THEN conjunct2, THEN conjunct2, THEN conjunct2, THEN conjunct2, THEN conjunct2, THEN conjunct2, THEN conjunct2, THEN conjunct2, THEN conjunct1] me le9
  obtain bs9 where b9: "bs9 0 = []" "bs9 (length [Str ''?a'']) = [(''?a'', Num (Fin 1))]"
    by blast
  have w9: "\<exists>bs. bs (0::nat) = [] \<and> bs 1 = [(''?a'', Num (Fin 1))]"
    using b9 by - (rule exI[of _ bs9], simp add: numeral_2_eq_2 numeral_3_eq_3)
  have h10: "0 < length [Num (Fin 1), Str ''?a''] \<and> length [Num (Fin 1), Str ''?a''] \<le> length [Num (Fin 2), Num (Fin 3)]
        \<and> (\<forall>i<0. match ?N (Suc 0) ([Num (Fin 1), Str ''?a''] ! i) ([Num (Fin 2), Num (Fin 3)] ! i) ((\<lambda>i. []) i)
               = Some \<lparr>isMatch = True, bindings = (\<lambda>i. []) (Suc i)\<rparr>)"
    by simp
  from sequence_destructuring[where qs="[Num (Fin 1), Str ''?a'']" and gs="[Num (Fin 2), Num (Fin 3)]"
            and m="match ?N (Suc 0)" and n=0 and th="\<lambda>i. []", THEN conjunct2, THEN conjunct2, THEN conjunct2, THEN conjunct2, THEN conjunct2, THEN conjunct2, THEN conjunct2, THEN conjunct2, THEN conjunct2, THEN conjunct1] h10
  have eq10: "matchElems (match ?N (Suc 0)) [Num (Fin 1), Str ''?a''] [Num (Fin 2), Num (Fin 3)] ((\<lambda>i. []) 0) =
        (case match ?N (Suc 0) ([Num (Fin 1), Str ''?a''] ! 0) ([Num (Fin 2), Num (Fin 3)] ! 0) ((\<lambda>i. []) 0) of
           None \<Rightarrow> None
         | Some r \<Rightarrow>
             if \<not> isMatch r then Some \<lparr>isMatch = False, bindings = bindings r\<rparr>
             else matchElems (match ?N (Suc 0)) (drop (Suc 0) [Num (Fin 1), Str ''?a''])
                    (drop (Suc 0) [Num (Fin 2), Num (Fin 3)]) (bindings r))"
    by blast
  have r10: "match ?N (Suc 0) ([Num (Fin 1), Str ''?a''] ! 0) ([Num (Fin 2), Num (Fin 3)] ! 0) ((\<lambda>i. []) 0)
               = Some \<lparr>isMatch = False, bindings = []\<rparr>"
    by simp
  have w10: "matchElems (match ?N (Suc 0)) [Num (Fin 1), Str ''?a''] [Num (Fin 2), Num (Fin 3)] []
       = Some \<lparr>isMatch = False, bindings = []\<rparr>"
    using eq10 unfolding r10 by simp
  from w1 w2 w3 w4 w5 w6 w7 w8 w9 w10 show ?thesis by blast
qed

section \<open>Properties of conflict resolution\<close>

lemma addToGroup_map_of:
  "map_of (addToGroup g a) k =
     (if k = propertyKey (salienceOf a)
      then Some ((case map_of g k of None \<Rightarrow> [] | Some l \<Rightarrow> l) @ [a])
      else map_of g k)"
proof (cases "map_of g (propertyKey (salienceOf a))")
  case None
  then have "propertyKey (salienceOf a) \<notin> fst ` set g" by (simp add: map_of_eq_None_iff)
  with None show ?thesis
    by (auto simp: addToGroup_def Let_def map_add_def split: option.splits)
next
  case (Some l)
  then show ?thesis
    by (auto simp: addToGroup_def Let_def update_conv')
qed

lemma addToGroup_keys:
  "fst ` set (addToGroup g a) = insert (propertyKey (salienceOf a)) (fst ` set g)"
proof -
  have "dom (map_of (addToGroup g a)) = insert (propertyKey (salienceOf a)) (dom (map_of g))"
    by (auto simp: addToGroup_map_of dom_def)
  then show ?thesis by (simp add: dom_map_of_conv_image_fst)
qed

lemma groups_map_of:
  "map_of (foldl addToGroup [] as) k =
     (if filter (\<lambda>a. propertyKey (salienceOf a) = k) as = [] then None
      else Some (filter (\<lambda>a. propertyKey (salienceOf a) = k) as))"
proof (induction as rule: rev_induct)
  case Nil
  then show ?case by simp
next
  case (snoc a as)
  then show ?case by (auto simp: addToGroup_map_of)
qed

lemma groups_keys:
  "fst ` set (foldl addToGroup [] as) = (\<lambda>a. propertyKey (salienceOf a)) ` set as"
proof (induction as rule: rev_induct)
  case Nil
  then show ?case by simp
next
  case (snoc a as)
  then show ?case using addToGroup_keys[of "foldl addToGroup [] as" a] by simp
qed

text \<open>Math.max on a list without NaN returns a greatest element of the list.\<close>

lemma mathMax2_noNaN: "x \<noteq> NaN \<Longrightarrow> y \<noteq> NaN \<Longrightarrow> mathMax2 x y \<noteq> NaN"
  by (simp add: mathMax2_def)

lemma mathMax2_cases: "mathMax2 x y = NaN \<or> mathMax2 x y = x \<or> mathMax2 x y = y"
  by (simp add: mathMax2_def)

lemma foldl_mathMax2:
  "NaN \<notin> set xs \<Longrightarrow> acc \<noteq> NaN \<Longrightarrow>
   foldl mathMax2 acc xs \<noteq> NaN \<and>
   (foldl mathMax2 acc xs = acc \<or> foldl mathMax2 acc xs \<in> set xs) \<and>
   \<not> numLess (foldl mathMax2 acc xs) acc \<and>
   (\<forall>x\<in>set xs. \<not> numLess (foldl mathMax2 acc xs) x)"
proof (induction xs arbitrary: acc)
  case Nil
  then show ?case by (auto simp: numLess_def)
next
  case (Cons y ys)
  let ?a = "mathMax2 acc y"
  from Cons.prems have y: "y \<noteq> NaN" and ys: "NaN \<notin> set ys" by auto
  from mathMax2_noNaN[OF Cons.prems(2) y] have a: "?a \<noteq> NaN" .
  note IH = Cons.IH[OF ys a]
  have le1: "\<not> numLess ?a acc" and le2: "\<not> numLess ?a y"
    using Cons.prems(2) y by (auto simp: mathMax2_def numLess_def finVal_def split: jsnum.splits)
  have tr: "\<And>m z. \<not> numLess m ?a \<Longrightarrow> m \<noteq> NaN \<Longrightarrow> \<not> numLess ?a z \<Longrightarrow> z \<noteq> NaN \<Longrightarrow> \<not> numLess m z"
    using a by (auto simp: numLess_def finVal_def split: jsnum.splits)
  from IH have m: "foldl mathMax2 ?a ys \<noteq> NaN" by simp
  have "\<not> numLess (foldl mathMax2 ?a ys) acc" using tr[OF _ m le1 Cons.prems(2)] IH by blast
  moreover have "\<not> numLess (foldl mathMax2 ?a ys) y" using tr[OF _ m le2 y] IH by blast
  moreover have "foldl mathMax2 ?a ys = acc \<or> foldl mathMax2 ?a ys \<in> set (y # ys)"
    using IH mathMax2_cases[of acc y] a by auto
  ultimately show ?case using IH by simp
qed


lemma hd_filter_findIndex:
  "filter P xs \<noteq> [] \<Longrightarrow> \<exists>i. findIndex P xs = Some i \<and> hd (filter P xs) = xs ! i"
proof (induction xs)
  case Nil
  then show ?case by simp
next
  case (Cons x xs)
  then show ?case by (cases "P x") auto
qed

lemma propertyKey_idem: "propertyKey (propertyKey x) = propertyKey x"
  by (simp add: propertyKey_def)

lemma propertyKey_NaN: "propertyKey x = NaN \<longleftrightarrow> x = NaN"
  by (simp add: propertyKey_def)

lemma numLess_propertyKey: "numLess (propertyKey x) (propertyKey y) = numLess x y"
  by (auto simp: propertyKey_def numLess_def finVal_def)

lemma numLess_total_keys:
  "x \<noteq> NaN \<Longrightarrow> y \<noteq> NaN \<Longrightarrow> propertyKey x \<noteq> propertyKey y \<Longrightarrow> numLess x y \<or> numLess y x"
  by (cases x; cases y) (auto simp: propertyKey_def numLess_def finVal_def split: if_splits)

lemma resolve_long:
  "2 \<le> length as \<Longrightarrow>
   resolve as =
     (case map_of (foldl addToGroup [] as)
             (propertyKey (mathMax (map fst (foldl addToGroup [] as)))) of
        Some (a # _) \<Rightarrow> Some a | _ \<Rightarrow> None)"
proof -
  assume "2 \<le> length as"
  then obtain a b cs where "as = a # b # cs"
    by (cases as; cases "tl as") auto
  then show ?thesis by (simp add: Let_def)
qed

text \<open>
  When no salience is \<open>NaN\<close>, \<open>resolve\<close> on two or more activations returns an activation
  of highest salience, and the earliest such in input order: nothing in the input has a
  higher salience, and everything before it has a strictly lower one.
\<close>

lemma resolve_highest_first:
  assumes len: "2 \<le> length as" and nn: "\<forall>a\<in>set as. salienceOf a \<noteq> NaN"
  shows "\<exists>i<length as. resolve as = Some (as ! i)
           \<and> (\<forall>j<length as. \<not> numLess (salienceOf (as ! i)) (salienceOf (as ! j)))
           \<and> (\<forall>j<i. numLess (salienceOf (as ! j)) (salienceOf (as ! i)))"
proof -
  let ?key = "\<lambda>a. propertyKey (salienceOf a)"
  let ?K = "map fst (foldl addToGroup [] as)"
  let ?m = "mathMax ?K"
  have K: "set ?K = ?key ` set as" by (simp add: groups_keys)
  from len have ne: "as \<noteq> []" by auto
  have noNaN: "NaN \<notin> set ?K" unfolding K using nn by (auto simp: propertyKey_def split: if_splits)
  from foldl_mathMax2[OF noNaN, of NegInf]
  have m1: "?m \<noteq> NaN" and m2: "?m = NegInf \<or> ?m \<in> set ?K"
    and m3: "\<forall>x\<in>set ?K. \<not> numLess ?m x"
    by (simp_all add: mathMax_def)
  have mK: "?m \<in> set ?K"
  proof (cases "?m \<in> set ?K")
    case True
    then show ?thesis .
  next
    case False
    with m2 have inf: "?m = NegInf" by simp
    from ne obtain a where a: "a \<in> set as" by (cases as) auto
    then have ka: "?key a \<in> set ?K" unfolding K by blast
    with m3 inf have "\<not> numLess NegInf (?key a)" by metis
    moreover from ka noNaN have "?key a \<noteq> NaN" by metis
    ultimately have "?key a = NegInf" by (auto simp: numLess_def)
    with ka inf False show ?thesis by simp
  qed
  then obtain a0 where a0: "a0 \<in> set as" "?m = ?key a0" unfolding K by blast
  then have pm: "propertyKey ?m = ?m" by (simp add: propertyKey_idem)
  let ?P = "\<lambda>a. ?key a = ?m"
  from a0 have fne: "filter ?P as \<noteq> []" by (auto simp: filter_empty_conv)
  then have look: "map_of (foldl addToGroup [] as) ?m = Some (filter ?P as)"
    by (simp add: groups_map_of)
  from hd_filter_findIndex[OF fne] obtain i where
    i: "findIndex ?P as = Some i" "hd (filter ?P as) = as ! i" by blast
  from findIndex_Some[OF i(1)] have il: "i < length as" and ik: "?key (as ! i) = ?m"
    and before: "\<forall>j<i. ?key (as ! j) \<noteq> ?m" by auto
  have res: "resolve as = Some (as ! i)"
    using fne i(2) by (cases "filter ?P as") (simp_all add: resolve_long[OF len] pm look)
  have top: "\<forall>j<length as. \<not> numLess (salienceOf (as ! i)) (salienceOf (as ! j))"
  proof (intro allI impI)
    fix j assume j: "j < length as"
    then have "?key (as ! j) \<in> set ?K" unfolding K by simp
    with m3 have "\<not> numLess ?m (?key (as ! j))" by blast
    then show "\<not> numLess (salienceOf (as ! i)) (salienceOf (as ! j))"
      using ik numLess_propertyKey[of "salienceOf (as ! i)" "salienceOf (as ! j)"] by simp
  qed
  have first: "\<forall>j<i. numLess (salienceOf (as ! j)) (salienceOf (as ! i))"
  proof (intro allI impI)
    fix j assume j: "j < i"
    with il have jl: "j < length as" by simp
    from before j ik have "?key (as ! j) \<noteq> ?key (as ! i)" by simp
    moreover have "salienceOf (as ! j) \<noteq> NaN" "salienceOf (as ! i) \<noteq> NaN"
      using nn jl il by auto
    ultimately have "numLess (salienceOf (as ! j)) (salienceOf (as ! i))
        \<or> numLess (salienceOf (as ! i)) (salienceOf (as ! j))"
      using numLess_total_keys by blast
    with top jl show "numLess (salienceOf (as ! j)) (salienceOf (as ! i))" by blast
  qed
  from il res top first show ?thesis by blast
qed

text \<open>
  C2. The empty input gives \<open>null\<close>, a single activation is returned as it is, salience
  values \<open>[10, 20, 5]\<close> select the activation with 20, a non-numeric salience counts as 0,
  and of two activations at the highest salience the earlier one is returned. A salience
  of \<open>NaN\<close> passes the \<open>typeof ... === 'number'\<close> test, makes \<open>Math.max\<close> return \<open>NaN\<close>, and
  so the first activation with salience \<open>NaN\<close> is returned although another activation has
  salience 20.
\<close>

theorem resolve_nan_salience:
  "resolve [] = None
   \<and> resolve [a] = Some a
   \<and> resolve [act ''r1'' (Num (Fin 10)), act ''r2'' (Num (Fin 20)), act ''r3'' (Num (Fin 5))]
       = Some (act ''r2'' (Num (Fin 20)))
   \<and> resolve [act ''r1'' (Str ''high''), act ''r2'' (Num (Fin 5)), act ''r3'' Undefined]
       = Some (act ''r2'' (Num (Fin 5)))
   \<and> resolve [act ''r1'' (Num (Fin 5)), act ''r2'' (Num (Fin 10)), act ''r3'' (Num (Fin 10))]
       = Some (act ''r2'' (Num (Fin 10)))
   \<and> resolve [act ''r1'' (Num NaN), act ''r2'' (Num (Fin 20))] = Some (act ''r1'' (Num NaN))"
  by (simp add: act_def Let_def addToGroup_def salienceOf_def propertyKey_def mathMax_def
        mathMax2_def numLess_def finVal_def)

section \<open>Properties of the fact store\<close>













section \<open>Properties of the ordering of query results\<close>

lemma filter_sortStep:
  assumes "P x \<Longrightarrow> \<forall>y\<in>set racc. P y \<longrightarrow> \<not> 0 < cmp y x"
  shows "filter P (sortStep cmp racc x) = filter P (x # racc)"
proof -
  let ?g = "\<lambda>y. 0 < cmp y x"
  have split: "filter P racc = filter P (takeWhile ?g racc) @ filter P (dropWhile ?g racc)"
    by (metis filter_append takeWhile_dropWhile_id)
  show ?thesis
  proof (cases "P x")
    case True
    have "\<forall>y\<in>set (takeWhile ?g racc). \<not> P y"
      using assms[OF True] by (metis set_takeWhileD)
    then have "filter P (takeWhile ?g racc) = []" by (simp add: filter_empty_conv)
    with True split show ?thesis by (simp add: sortStep_def)
  next
    case False
    with split show ?thesis by (simp add: sortStep_def)
  qed
qed

lemma set_sortStep: "set (sortStep cmp racc x) = insert x (set racc)"
proof -
  have "set racc = set (takeWhile (\<lambda>y. 0 < cmp y x) racc) \<union> set (dropWhile (\<lambda>y. 0 < cmp y x) racc)"
    by (metis set_append takeWhile_dropWhile_id)
  then show ?thesis by (auto simp: sortStep_def)
qed

lemma set_foldl_sortStep: "set (foldl (sortStep cmp) acc xs) = set acc \<union> set xs"
  by (induction xs arbitrary: acc) (auto simp: set_sortStep)

lemma filter_foldl_sortStep:
  assumes "\<forall>x\<in>set xs \<union> set acc. \<forall>y\<in>set xs \<union> set acc. P x \<and> P y \<longrightarrow> \<not> 0 < cmp y x"
  shows "filter P (foldl (sortStep cmp) acc xs) = rev (filter P xs) @ filter P acc"
  using assms
proof (induction xs arbitrary: acc)
  case Nil
  then show ?case by simp
next
  case (Cons x xs)
  have step: "filter P (sortStep cmp acc x) = filter P (x # acc)"
    using Cons.prems by (intro filter_sortStep) auto
  have "\<forall>a\<in>set xs \<union> set (sortStep cmp acc x). \<forall>y\<in>set xs \<union> set (sortStep cmp acc x).
          P a \<and> P y \<longrightarrow> \<not> 0 < cmp y a"
    using Cons.prems by (auto simp: set_sortStep)
  from Cons.IH[OF this] step show ?case by simp
qed

lemma stableSort_stable:
  assumes "\<forall>x\<in>set xs. \<forall>y\<in>set xs. P x \<and> P y \<longrightarrow> \<not> 0 < cmp y x"
  shows "filter P (stableSort cmp xs) = filter P xs"
  using filter_foldl_sortStep[of xs "[]" P cmp] assms
  by (simp add: stableSort_def rev_filter[symmetric])

lemma set_stableSort: "set (stableSort cmp xs) = set xs"
  by (simp add: stableSort_def set_foldl_sortStep)

lemma length_sortStep: "length (sortStep cmp racc x) = Suc (length racc)"
proof -
  have "length (takeWhile (\<lambda>y. 0 < cmp y x) racc) + length (dropWhile (\<lambda>y. 0 < cmp y x) racc)
          = length racc"
    by (metis length_append takeWhile_dropWhile_id)
  then show ?thesis by (simp add: sortStep_def)
qed

lemma length_foldl_sortStep: "length (foldl (sortStep cmp) acc xs) = length acc + length xs"
  by (induction xs arbitrary: acc) (simp_all add: length_sortStep)

lemma length_stableSort: "length (stableSort cmp xs) = length xs"
  by (simp add: stableSort_def length_foldl_sortStep)


lemma takeWhile_append_none:
  "\<forall>y\<in>set B. \<not> g y \<Longrightarrow> takeWhile g (F @ B) = takeWhile g F"
  by (induction F) (auto simp: takeWhile_eq_Nil_iff)

lemma dropWhile_append_none:
  "\<forall>y\<in>set B. \<not> g y \<Longrightarrow> dropWhile g (F @ B) = dropWhile g F @ B"
proof (induction F)
  case Nil
  then show ?case by (cases B) auto
next
  case (Cons a F)
  then show ?case by simp
qed

lemma splitBy_sortStep:
  assumes inv: "splitBy Q racc"
    and pass: "\<And>y. Q y \<Longrightarrow> \<not> Q x \<Longrightarrow> 0 < cmp y x"
    and stop: "\<And>y. \<not> Q y \<Longrightarrow> Q x \<Longrightarrow> \<not> 0 < cmp y x"
  shows "splitBy Q (sortStep cmp racc x)"
proof -
  let ?g = "\<lambda>y. 0 < cmp y x"
  from inv obtain F B where fb: "racc = F @ B" "\<forall>y\<in>set F. Q y" "\<forall>y\<in>set B. \<not> Q y"
    by (auto simp: splitBy_def)
  show ?thesis
  proof (cases "Q x")
    case True
    with stop fb(3) have nb: "\<forall>y\<in>set B. \<not> ?g y" by blast
    have eq: "sortStep cmp racc x = (takeWhile ?g F @ x # dropWhile ?g F) @ B"
      by (simp add: sortStep_def fb(1) takeWhile_append_none[OF nb] dropWhile_append_none[OF nb])
    have "\<forall>y\<in>set (takeWhile ?g F @ x # dropWhile ?g F). Q y"
      using True fb(2) by (auto dest: set_takeWhileD set_dropWhileD)
    with fb(3) eq show ?thesis unfolding splitBy_def by blast
  next
    case False
    with pass fb(2) have af: "\<And>y. y \<in> set F \<Longrightarrow> ?g y" by blast
    have eq: "sortStep cmp racc x = F @ (takeWhile ?g B @ x # dropWhile ?g B)"
      by (simp add: sortStep_def fb(1) takeWhile_append2[of F ?g, OF af] dropWhile_append2[of F ?g, OF af])
    have "\<forall>y\<in>set (takeWhile ?g B @ x # dropWhile ?g B). \<not> Q y"
      using False fb(3) by (auto dest: set_takeWhileD set_dropWhileD)
    with fb(2) eq show ?thesis unfolding splitBy_def by blast
  qed
qed

lemma splitBy_foldl:
  assumes "splitBy Q acc"
    and "\<And>x y. Q y \<Longrightarrow> \<not> Q x \<Longrightarrow> 0 < cmp y x"
    and "\<And>x y. \<not> Q y \<Longrightarrow> Q x \<Longrightarrow> \<not> 0 < cmp y x"
  shows "splitBy Q (foldl (sortStep cmp) acc xs)"
  using assms(1)
proof (induction xs arbitrary: acc)
  case Nil
  then show ?case by simp
next
  case (Cons x xs)
  from splitBy_sortStep[where x=x and cmp=cmp, OF Cons.prems] assms(2,3)
  have "splitBy Q (sortStep cmp acc x)" by blast
  from Cons.IH[OF this] show ?case by simp
qed

lemma stableSort_split:
  assumes "\<And>x y. Q y \<Longrightarrow> \<not> Q x \<Longrightarrow> 0 < cmp y x"
    and "\<And>x y. \<not> Q y \<Longrightarrow> Q x \<Longrightarrow> \<not> 0 < cmp y x"
  shows "stableSort cmp xs = filter (\<lambda>y. \<not> Q y) (stableSort cmp xs) @ filter Q (stableSort cmp xs)"
proof -
  have "splitBy Q []" by (simp add: splitBy_def)
  from splitBy_foldl[where xs=xs and cmp=cmp, OF this assms] obtain F B where
    fb: "foldl (sortStep cmp) [] xs = F @ B" "\<forall>y\<in>set F. Q y" "\<forall>y\<in>set B. \<not> Q y"
    by (auto simp: splitBy_def)
  have out: "stableSort cmp xs = rev B @ rev F" by (simp add: stableSort_def fb(1))
  have "filter (\<lambda>y. \<not> Q y) (rev B @ rev F) = rev B" using fb(2,3) by (simp add: filter_empty_conv)
  moreover have "filter Q (rev B @ rev F) = rev F" using fb(2,3) by (simp add: filter_empty_conv)
  ultimately show ?thesis by (simp add: out)
qed


text \<open>What consistency gives on the elements of the list.\<close>

lemma consistent_refl: "consistentOn cmp xs \<Longrightarrow> a \<in> set xs \<Longrightarrow> cmp a a = 0"
  by (simp add: consistentOn_def)

lemma consistent_sym:
  "consistentOn cmp xs \<Longrightarrow> a \<in> set xs \<Longrightarrow> b \<in> set xs \<Longrightarrow> cmp a b = 0 \<Longrightarrow> cmp b a = 0"
  unfolding consistentOn_def by blast

lemma consistent_eq_trans:
  "consistentOn cmp xs \<Longrightarrow> a \<in> set xs \<Longrightarrow> b \<in> set xs \<Longrightarrow> c \<in> set xs \<Longrightarrow>
   cmp a b = 0 \<Longrightarrow> cmp b c = 0 \<Longrightarrow> cmp a c = 0"
  unfolding consistentOn_def by blast

lemma consistent_lt_trans:
  "consistentOn cmp xs \<Longrightarrow> a \<in> set xs \<Longrightarrow> b \<in> set xs \<Longrightarrow> c \<in> set xs \<Longrightarrow>
   cmp a b < 0 \<Longrightarrow> cmp b c < 0 \<Longrightarrow> cmp a c < 0"
  unfolding consistentOn_def by blast

lemma consistent_gt_trans:
  "consistentOn cmp xs \<Longrightarrow> a \<in> set xs \<Longrightarrow> b \<in> set xs \<Longrightarrow> c \<in> set xs \<Longrightarrow>
   0 < cmp a b \<Longrightarrow> 0 < cmp b c \<Longrightarrow> 0 < cmp a c"
  unfolding consistentOn_def by blast

lemma consistent_flip:
  assumes c: "consistentOn cmp xs" and a: "a \<in> set xs" and b: "b \<in> set xs"
  shows "0 < cmp a b \<longleftrightarrow> cmp b a < 0"
proof
  assume g: "0 < cmp a b"
  show "cmp b a < 0"
  proof (rule ccontr)
    assume "\<not> cmp b a < 0"
    then consider "cmp b a = 0" | "0 < cmp b a" by linarith
    then show False
    proof cases
      case 1
      from consistent_sym[OF c b a 1] g show False by simp
    next
      case 2
      from consistent_gt_trans[OF c a b a g 2] consistent_refl[OF c a] show False by simp
    qed
  qed
next
  assume l: "cmp b a < 0"
  show "0 < cmp a b"
  proof (rule ccontr)
    assume "\<not> 0 < cmp a b"
    then consider "cmp a b = 0" | "cmp a b < 0" by linarith
    then show False
    proof cases
      case 1
      from consistent_sym[OF c a b 1] l show False by simp
    next
      case 2
      from consistent_lt_trans[OF c b a b l 2] consistent_refl[OF c b] show False by simp
    qed
  qed
qed

lemma consistent_le_trans:
  assumes c: "consistentOn cmp xs" and a: "a \<in> set xs" and b: "b \<in> set xs" and d: "d \<in> set xs"
    and ab: "cmp a b \<le> 0" and bd: "cmp b d \<le> 0"
  shows "cmp a d \<le> 0"
proof (rule ccontr)
  assume "\<not> cmp a d \<le> 0"
  then have g: "0 < cmp a d" by simp
  then have da: "cmp d a < 0" using consistent_flip[OF c a d] by simp
  from ab consider "cmp a b < 0" | "cmp a b = 0" by linarith
  then show False
  proof cases
    case 1
    from consistent_lt_trans[OF c d a b da 1] have "cmp d b < 0" .
    then have "0 < cmp b d" using consistent_flip[OF c b d] by simp
    with bd show False by simp
  next
    case 2
    then have ba: "cmp b a = 0" by (rule consistent_sym[OF c a b])
    from bd consider "cmp b d < 0" | "cmp b d = 0" by linarith
    then show False
    proof cases
      case 1
      from consistent_lt_trans[OF c b d a 1 da] ba show False by simp
    next
      case 2
      from consistent_eq_trans[OF c a b d \<open>cmp a b = 0\<close> 2] g show False by simp
    qed
  qed
qed

lemma consistent_both_le:
  assumes c: "consistentOn cmp xs" and a: "a \<in> set xs" and b: "b \<in> set xs"
    and ab: "cmp a b \<le> 0" and ba: "cmp b a \<le> 0"
  shows "cmp a b = 0"
proof (rule ccontr)
  assume "cmp a b \<noteq> 0"
  with ab have "cmp a b < 0" by simp
  then have "0 < cmp b a" using consistent_flip[OF c b a] by simp
  with ba show False by simp
qed

lemma consistentOn_subset:
  "consistentOn cmp xs \<Longrightarrow> set ys \<subseteq> set xs \<Longrightarrow> consistentOn cmp ys"
  unfolding consistentOn_def by blast

text \<open>The insertion sort leaves the elements in the order of a consistent comparator.\<close>

lemma sorted_sortStep:
  assumes c: "consistentOn cmp xs" and x: "x \<in> set xs" and sub: "set racc \<subseteq> set xs"
    and s: "sorted_wrt (\<lambda>u v. cmp v u \<le> 0) racc"
  shows "sorted_wrt (\<lambda>u v. cmp v u \<le> 0) (sortStep cmp racc x)"
proof -
  let ?g = "\<lambda>y. 0 < cmp y x"
  let ?T = "takeWhile ?g racc" and ?D = "dropWhile ?g racc"
  have td: "racc = ?T @ ?D" by simp
  have "sorted_wrt (\<lambda>u v. cmp v u \<le> 0) (?T @ ?D)" using s by simp
  then have sT: "sorted_wrt (\<lambda>u v. cmp v u \<le> 0) ?T" and sD: "sorted_wrt (\<lambda>u v. cmp v u \<le> 0) ?D"
    and cross: "\<forall>u\<in>set ?T. \<forall>v\<in>set ?D. cmp v u \<le> 0"
    unfolding sorted_wrt_append by blast+
  have inT: "\<And>u. u \<in> set ?T \<Longrightarrow> u \<in> set xs" using sub by (auto dest: set_takeWhileD)
  have inD: "\<And>v. v \<in> set ?D \<Longrightarrow> v \<in> set xs" using sub by (auto dest: set_dropWhileD)
  have Tx: "\<forall>u\<in>set ?T. cmp x u \<le> 0"
  proof
    fix u assume u: "u \<in> set ?T"
    then have "0 < cmp u x" by (auto dest: set_takeWhileD)
    then have "cmp x u < 0" using consistent_flip[OF c inT[OF u] x] by simp
    then show "cmp x u \<le> 0" by simp
  qed
  have xD: "\<forall>v\<in>set ?D. cmp v x \<le> 0"
  proof (cases ?D)
    case Nil
    then show ?thesis by (metis empty_iff list.set(1))
  next
    case (Cons d0 ds)
    then have "\<not> ?g d0" using hd_dropWhile[of ?g racc] by (metis list.sel(1) list.distinct(1))
    then have d0x: "cmp d0 x \<le> 0" by simp
    have d0in: "d0 \<in> set xs" using inD Cons by (metis list.set_intros(1))
    show ?thesis
    proof
      fix v assume v: "v \<in> set ?D"
      show "cmp v x \<le> 0"
      proof (cases "v = d0")
        case True
        with d0x show ?thesis by simp
      next
        case False
        with v Cons have "v \<in> set ds" by simp
        with sD Cons have "cmp v d0 \<le> 0" by simp
        from consistent_le_trans[OF c inD[OF v] d0in x this d0x] show ?thesis .
      qed
    qed
  qed
  have "sorted_wrt (\<lambda>u v. cmp v u \<le> 0) (?T @ x # ?D)"
    using sT sD cross Tx xD by (simp add: sorted_wrt_append)
  then show ?thesis by (simp add: sortStep_def)
qed

lemma sorted_foldl_sortStep:
  assumes c: "consistentOn cmp xs"
  shows "set ys \<subseteq> set xs \<Longrightarrow> set racc \<subseteq> set xs \<Longrightarrow> sorted_wrt (\<lambda>u v. cmp v u \<le> 0) racc \<Longrightarrow>
         sorted_wrt (\<lambda>u v. cmp v u \<le> 0) (foldl (sortStep cmp) racc ys)"
proof (induction ys arbitrary: racc)
  case Nil
  then show ?case by simp
next
  case (Cons y ys)
  from Cons.prems have y: "y \<in> set xs" and ys: "set ys \<subseteq> set xs" by auto
  have "sorted_wrt (\<lambda>u v. cmp v u \<le> 0) (sortStep cmp racc y)"
    by (rule sorted_sortStep[OF c y Cons.prems(2,3)])
  moreover have "set (sortStep cmp racc y) \<subseteq> set xs"
    using y Cons.prems(2) by (simp add: set_sortStep)
  ultimately show ?case using Cons.IH[OF ys] by simp
qed

lemma sorted_stableSort:
  assumes "consistentOn cmp xs"
  shows "sorted_wrt (\<lambda>u v. cmp u v \<le> 0) (stableSort cmp xs)"
proof -
  have "sorted_wrt (\<lambda>u v. cmp v u \<le> 0) (foldl (sortStep cmp) [] xs)"
    by (rule sorted_foldl_sortStep[OF assms]) simp_all
  then show ?thesis by (simp add: stableSort_def sorted_wrt_rev)
qed

lemma stableSort_classes:
  assumes c: "consistentOn cmp xs" and a: "a \<in> set xs"
  shows "filter (\<lambda>r. cmp a r = 0) (stableSort cmp xs) = filter (\<lambda>r. cmp a r = 0) xs"
proof (rule stableSort_stable, intro ballI impI)
  fix x y assume x: "x \<in> set xs" and y: "y \<in> set xs" and e: "cmp a x = 0 \<and> cmp a y = 0"
  from e have "cmp y a = 0" using consistent_sym[OF c a y] by simp
  from consistent_eq_trans[OF c y a x this] e have "cmp y x = 0" by simp
  then show "\<not> 0 < cmp y x" by simp
qed

text \<open>
  The order of a consistent comparator and the input order within each class fix the
  result: two arrangements with both are the same list.
\<close>

lemma stable_sorted_unique:
  assumes c: "consistentOn cmp xs"
  shows "set ys \<subseteq> set xs \<Longrightarrow> set zs \<subseteq> set xs \<Longrightarrow>
         sorted_wrt (\<lambda>u v. cmp u v \<le> 0) ys \<Longrightarrow> sorted_wrt (\<lambda>u v. cmp u v \<le> 0) zs \<Longrightarrow>
         \<forall>a\<in>set xs. filter (\<lambda>r. cmp a r = 0) ys = filter (\<lambda>r. cmp a r = 0) zs \<Longrightarrow>
         ys = zs"
proof (induction ys arbitrary: zs)
  case Nil
  show ?case
  proof (cases zs)
    case Nil
    then show ?thesis by simp
  next
    case (Cons z zs')
    with Nil.prems(2) have z: "z \<in> set xs" by simp
    from bspec[OF Nil.prems(5) z] have "filter (\<lambda>r. cmp z r = 0) zs = []" by simp
    with Cons consistent_refl[OF c z] show ?thesis by simp
  qed
next
  case (Cons y ys')
  from Cons.prems(1) have y: "y \<in> set xs" by simp
  have yy: "cmp y y = 0" by (rule consistent_refl[OF c y])
  from bspec[OF Cons.prems(5) y] yy
  have fy: "filter (\<lambda>r. cmp y r = 0) zs = y # filter (\<lambda>r. cmp y r = 0) ys'" by simp
  then have "y \<in> set (filter (\<lambda>r. cmp y r = 0) zs)" by simp
  then have yz: "y \<in> set zs" by simp
  then obtain z zs' where zs: "zs = z # zs'" by (cases zs) auto
  from Cons.prems(2) zs have z: "z \<in> set xs" by simp
  have zz: "cmp z z = 0" by (rule consistent_refl[OF c z])
  from bspec[OF Cons.prems(5) z] zs zz
  have "filter (\<lambda>r. cmp z r = 0) (y # ys') = z # filter (\<lambda>r. cmp z r = 0) zs'" by simp
  then have "z \<in> set (filter (\<lambda>r. cmp z r = 0) (y # ys'))" by (simp del: filter.simps)
  then have zy: "z \<in> set (y # ys')" by (simp del: filter.simps)
  have yz_le: "cmp y z \<le> 0"
  proof (cases "z = y")
    case True
    with yy show ?thesis by simp
  next
    case False
    with zy have "z \<in> set ys'" by simp
    with Cons.prems(3) show ?thesis by simp
  qed
  have zy_le: "cmp z y \<le> 0"
  proof (cases "y = z")
    case True
    with zz show ?thesis by simp
  next
    case False
    with yz zs have "y \<in> set zs'" by simp
    with Cons.prems(4) zs show ?thesis by simp
  qed
  have "cmp y z = 0" by (rule consistent_both_le[OF c y z yz_le zy_le])
  with fy zs have eq: "z = y" by simp
  have "ys' = zs'"
  proof (rule Cons.IH)
    show "set ys' \<subseteq> set xs" using Cons.prems(1) by simp
    show "set zs' \<subseteq> set xs" using Cons.prems(2) zs by simp
    show "sorted_wrt (\<lambda>u v. cmp u v \<le> 0) ys'" using Cons.prems(3) by simp
    show "sorted_wrt (\<lambda>u v. cmp u v \<le> 0) zs'" using Cons.prems(4) zs by simp
    show "\<forall>a\<in>set xs. filter (\<lambda>r. cmp a r = 0) ys' = filter (\<lambda>r. cmp a r = 0) zs'"
    proof
      fix a assume a: "a \<in> set xs"
      from bspec[OF Cons.prems(5) a] have "filter (\<lambda>r. cmp a r = 0) (y # ys') = filter (\<lambda>r. cmp a r = 0) (y # zs')"
        using zs eq by simp
      then show "filter (\<lambda>r. cmp a r = 0) ys' = filter (\<lambda>r. cmp a r = 0) zs'"
        by (simp split: if_splits)
    qed
  qed
  with zs eq show ?case by simp
qed

lemma jsSort_unique:
  assumes c: "consistentOn cmp xs" and sub: "set zs \<subseteq> set xs"
    and s: "sorted_wrt (\<lambda>u v. cmp u v \<le> 0) zs"
    and st: "\<forall>a\<in>set xs. filter (\<lambda>r. cmp a r = 0) zs = filter (\<lambda>r. cmp a r = 0) xs"
  shows "jsSort cmp xs = Some zs"
proof -
  have "stableSort cmp xs = zs"
  proof (rule stable_sorted_unique[OF c])
    show "set (stableSort cmp xs) \<subseteq> set xs" by (simp add: set_stableSort)
    show "set zs \<subseteq> set xs" by (rule sub)
    show "sorted_wrt (\<lambda>u v. cmp u v \<le> 0) (stableSort cmp xs)" by (rule sorted_stableSort[OF c])
    show "sorted_wrt (\<lambda>u v. cmp u v \<le> 0) zs" by (rule s)
    show "\<forall>a\<in>set xs. filter (\<lambda>r. cmp a r = 0) (stableSort cmp xs) = filter (\<lambda>r. cmp a r = 0) zs"
      using st stableSort_classes[OF c] by simp
  qed
  with c show ?thesis by (simp add: jsSort_def)
qed


text \<open>The comparator of the query depends on the rows through their sort keys only.\<close>

lemma compareRows_sign:
  "compareRows proto refEq lt key dir a b =
     (let asc = (dir = Undefined \<or> dir = Str ''asc'');
          ka = sortKey proto key a; kb = sortKey proto key b
      in if ka = Undefined \<and> kb \<noteq> Undefined then (if asc then 1 else -1)
         else if ka \<noteq> Undefined \<and> kb = Undefined then (if asc then -1 else 1)
         else if strictEq refEq ka kb then 0
         else if lt ka kb then (if asc then -1 else 1)
         else if lt kb ka then (if asc then 1 else -1)
         else 0)"
  by (simp add: compareRows_def sortKey_def Let_def)

lemma compareRows_same_keys:
  "sortKey proto key a = sortKey proto key a' \<Longrightarrow> sortKey proto key b = sortKey proto key b' \<Longrightarrow>
   compareRows proto refEq lt key dir a b = compareRows proto refEq lt key dir a' b'"
  by (simp add: compareRows_sign)

lemma compareRows_desc:
  "dir \<noteq> Undefined \<Longrightarrow> dir \<noteq> Str ''asc'' \<Longrightarrow>
   compareRows proto refEq lt key dir a b = - compareRows proto refEq lt key (Str ''asc'') a b"
  by (simp add: compareRows_def Let_def)

lemma compareRows_default:
  "compareRows proto refEq lt key Undefined a b = compareRows proto refEq lt key (Str ''asc'') a b"
  by (simp add: compareRows_def Let_def)

lemma consistentOn_neg: "consistentOn (\<lambda>a b. - cmp a b) xs = consistentOn cmp xs"
  unfolding consistentOn_def by (simp add: conj_commute)

lemma strictEq_Undefined: "strictEq refEq Undefined Undefined"
  by (simp add: strictEq_def)

lemma definedKeys_member:
  "a \<in> set rows \<Longrightarrow> sortKey proto key a \<noteq> Undefined \<Longrightarrow>
   sortKey proto key a \<in> set (definedKeys proto key rows)"
  by (simp add: definedKeys_def)

lemma consistent_asc:
  assumes ko: "keyOrderOn refEq lt (definedKeys proto key rows)"
  shows "consistentOn (compareRows proto refEq lt key (Str ''asc'')) rows"
proof -
  let ?k = "sortKey proto key"
  let ?cmp = "compareRows proto refEq lt key (Str ''asc'')"
  define D where "D = (\<lambda>a. ?k a \<noteq> Undefined)"
  define L where "L = (\<lambda>a b. (D a \<and> \<not> D b) \<or> (D a \<and> D b \<and> lt (?k a) (?k b)))"
  define E where "E = (\<lambda>a b. (\<not> D a \<and> \<not> D b) \<or> (D a \<and> D b \<and> \<not> lt (?k a) (?k b) \<and> \<not> lt (?k b) (?k a)))"
  have mem: "\<And>a. a \<in> set rows \<Longrightarrow> D a \<Longrightarrow> ?k a \<in> set (definedKeys proto key rows)"
    unfolding D_def by (rule definedKeys_member)
  have irr: "\<And>a. a \<in> set rows \<Longrightarrow> D a \<Longrightarrow> \<not> lt (?k a) (?k a)"
    using ko mem unfolding keyOrderOn_def by blast
  have se: "\<And>a b. a \<in> set rows \<Longrightarrow> b \<in> set rows \<Longrightarrow> D a \<Longrightarrow> D b \<Longrightarrow>
              strictEq refEq (?k a) (?k b) \<Longrightarrow> \<not> lt (?k a) (?k b) \<and> \<not> lt (?k b) (?k a)"
    using ko mem unfolding keyOrderOn_def by blast
  have tr: "\<And>a b c. a \<in> set rows \<Longrightarrow> b \<in> set rows \<Longrightarrow> c \<in> set rows \<Longrightarrow> D a \<Longrightarrow> D b \<Longrightarrow> D c \<Longrightarrow>
              lt (?k a) (?k b) \<Longrightarrow> lt (?k b) (?k c) \<Longrightarrow> lt (?k a) (?k c)"
    using ko mem unfolding keyOrderOn_def by blast
  have inc: "\<And>a b c. a \<in> set rows \<Longrightarrow> b \<in> set rows \<Longrightarrow> c \<in> set rows \<Longrightarrow> D a \<Longrightarrow> D b \<Longrightarrow> D c \<Longrightarrow>
              \<not> lt (?k a) (?k b) \<Longrightarrow> \<not> lt (?k b) (?k a) \<Longrightarrow> \<not> lt (?k b) (?k c) \<Longrightarrow> \<not> lt (?k c) (?k b) \<Longrightarrow>
              \<not> lt (?k a) (?k c) \<and> \<not> lt (?k c) (?k a)"
    using ko mem unfolding keyOrderOn_def by blast
  have asym: "\<And>a b. a \<in> set rows \<Longrightarrow> b \<in> set rows \<Longrightarrow> D a \<Longrightarrow> D b \<Longrightarrow>
              lt (?k a) (?k b) \<Longrightarrow> \<not> lt (?k b) (?k a)"
    using tr irr by blast
  have c0: "\<And>a b. a \<in> set rows \<Longrightarrow> b \<in> set rows \<Longrightarrow> ?cmp a b = 0 \<longleftrightarrow> E a b"
    using se by (auto simp: compareRows_sign Let_def E_def D_def strictEq_Undefined)
  have cn: "\<And>a b. a \<in> set rows \<Longrightarrow> b \<in> set rows \<Longrightarrow> ?cmp a b < 0 \<longleftrightarrow> L a b"
    using se by (auto simp: compareRows_sign Let_def L_def D_def strictEq_Undefined)
  have cp: "\<And>a b. a \<in> set rows \<Longrightarrow> b \<in> set rows \<Longrightarrow> 0 < ?cmp a b \<longleftrightarrow> L b a"
    using se asym by (auto simp: compareRows_sign Let_def L_def D_def strictEq_Undefined)
  have Er: "\<And>a. a \<in> set rows \<Longrightarrow> E a a" using irr unfolding E_def by blast
  have Es: "\<And>a b. E a b \<Longrightarrow> E b a" unfolding E_def by blast
  have Et: "\<And>a b c. a \<in> set rows \<Longrightarrow> b \<in> set rows \<Longrightarrow> c \<in> set rows \<Longrightarrow> E a b \<Longrightarrow> E b c \<Longrightarrow> E a c"
    using inc unfolding E_def by blast
  have Lt: "\<And>a b c. a \<in> set rows \<Longrightarrow> b \<in> set rows \<Longrightarrow> c \<in> set rows \<Longrightarrow> L a b \<Longrightarrow> L b c \<Longrightarrow> L a c"
    using tr unfolding L_def by blast
  show ?thesis
    unfolding consistentOn_def
  proof (intro ballI conjI impI)
    fix a assume a: "a \<in> set rows"
    show "?cmp a a = 0" using c0[OF a a] Er[OF a] by simp
    fix b assume b: "b \<in> set rows"
    { assume "?cmp a b = 0"
      then show "?cmp b a = 0" using c0[OF a b] c0[OF b a] Es by blast }
    fix c assume c: "c \<in> set rows"
    { assume "?cmp a b = 0 \<and> ?cmp b c = 0"
      then show "?cmp a c = 0" using c0[OF a b] c0[OF b c] c0[OF a c] Et[OF a b c] by blast }
    { assume "?cmp a b < 0 \<and> ?cmp b c < 0"
      then show "?cmp a c < 0" using cn[OF a b] cn[OF b c] cn[OF a c] Lt[OF a b c] by blast }
    { assume "0 < ?cmp a b \<and> 0 < ?cmp b c"
      then show "0 < ?cmp a c" using cp[OF a b] cp[OF b c] cp[OF a c] Lt[OF c b a] by blast }
  qed
qed

lemma compareRows_consistent:
  assumes ko: "keyOrderOn refEq lt (definedKeys proto key rows)"
  shows "consistentOn (compareRows proto refEq lt key dir) rows"
proof (cases "dir = Undefined \<or> dir = Str ''asc''")
  case True
  then have "compareRows proto refEq lt key dir = compareRows proto refEq lt key (Str ''asc'')"
    by (intro ext) (auto simp: compareRows_default)
  with consistent_asc[OF ko] show ?thesis by simp
next
  case False
  then have "compareRows proto refEq lt key dir
               = (\<lambda>a b. - compareRows proto refEq lt key (Str ''asc'') a b)"
    by (intro ext) (auto simp: compareRows_desc)
  with consistent_asc[OF ko] show ?thesis by (simp add: consistentOn_neg)
qed

lemma numLess_weak_order:
  assumes "x \<noteq> NaN" "y \<noteq> NaN" "z \<noteq> NaN"
  shows "\<not> numLess x x"
    and "strict_eq_num x y \<Longrightarrow> \<not> numLess x y \<and> \<not> numLess y x"
    and "numLess x y \<Longrightarrow> numLess y z \<Longrightarrow> numLess x z"
    and "\<not> numLess x y \<Longrightarrow> \<not> numLess y x \<Longrightarrow> \<not> numLess y z \<Longrightarrow> \<not> numLess z y \<Longrightarrow>
         \<not> numLess x z \<and> \<not> numLess z x"
proof -
  show "\<not> numLess x x" by (cases x) (simp_all add: numLess_def finVal_def)
  show "strict_eq_num x y \<Longrightarrow> \<not> numLess x y \<and> \<not> numLess y x"
    by (cases x; cases y) (auto simp: numLess_def finVal_def strict_eq_num_def)
  show "numLess x y \<Longrightarrow> numLess y z \<Longrightarrow> numLess x z"
    using assms by (cases x; cases y; cases z) (auto simp: numLess_def finVal_def)
  show "\<not> numLess x y \<Longrightarrow> \<not> numLess y x \<Longrightarrow> \<not> numLess y z \<Longrightarrow> \<not> numLess z y \<Longrightarrow>
         \<not> numLess x z \<and> \<not> numLess z x"
    using assms by (cases x; cases y; cases z) (auto simp: numLess_def finVal_def)
qed

lemma keyOrderOn_numbers:
  assumes "\<forall>k\<in>set ks. \<exists>x. k = Num x \<and> x \<noteq> NaN"
  shows "keyOrderOn refEq lessOnNumbers ks"
  unfolding keyOrderOn_def
proof (intro ballI conjI impI)
  fix a assume "a \<in> set ks"
  with assms obtain x where a: "a = Num x" "x \<noteq> NaN" by blast
  show "\<not> lessOnNumbers a a" using numLess_weak_order(1)[OF a(2) a(2) a(2)] a
    by (simp add: lessOnNumbers_def)
  fix b assume "b \<in> set ks"
  with assms obtain y where b: "b = Num y" "y \<noteq> NaN" by blast
  { assume "strictEq refEq a b"
    then have s: "strict_eq_num x y" using a b by (simp add: strictEq_def)
    from numLess_weak_order(2)[OF a(2) b(2) b(2) s] a b
    show "\<not> lessOnNumbers a b" and "\<not> lessOnNumbers b a" by (simp_all add: lessOnNumbers_def) }
  fix c assume "c \<in> set ks"
  with assms obtain z where c: "c = Num z" "z \<noteq> NaN" by blast
  { assume "lessOnNumbers a b \<and> lessOnNumbers b c"
    with numLess_weak_order(3)[OF a(2) b(2) c(2)] a b c
    show "lessOnNumbers a c" by (simp add: lessOnNumbers_def) }
  { assume h: "\<not> lessOnNumbers a b \<and> \<not> lessOnNumbers b a \<and> \<not> lessOnNumbers b c \<and> \<not> lessOnNumbers c b"
    with numLess_weak_order(4)[OF a(2) b(2) c(2)] a b c
    show "\<not> lessOnNumbers a c" and "\<not> lessOnNumbers c a" by (simp_all add: lessOnNumbers_def) }
qed

lemma compareRows_pos:
  "0 < compareRows proto refEq lt key dir a b \<longleftrightarrow>
     (let asc = (dir = Undefined \<or> dir = Str ''asc'');
          ka = sortKey proto key a; kb = sortKey proto key b
      in if ka = Undefined \<and> kb \<noteq> Undefined then asc
         else if ka \<noteq> Undefined \<and> kb = Undefined then \<not> asc
         else if strictEq refEq ka kb then False
         else if lt ka kb then \<not> asc
         else if lt kb ka then asc
         else False)"
  by (auto simp: compareRows_sign Let_def)

lemma placement_asc:
  assumes "direction = Undefined \<or> direction = Str ''asc''"
  shows "stableSort (compareRows proto refEq lt key direction) rows
       = filter (hasSortKey proto key) (stableSort (compareRows proto refEq lt key direction) rows)
         @ filter (\<lambda>r. \<not> hasSortKey proto key r) rows"
proof -
  let ?cmp = "compareRows proto refEq lt key direction"
  let ?Q = "\<lambda>r. \<not> hasSortKey proto key r"
  have split: "stableSort ?cmp rows
                 = filter (\<lambda>y. \<not> ?Q y) (stableSort ?cmp rows) @ filter ?Q (stableSort ?cmp rows)"
    using assms by (intro stableSort_split) (auto simp: compareRows_pos hasSortKey_def Let_def)
  have stable: "filter ?Q (stableSort ?cmp rows) = filter ?Q rows"
    by (intro stableSort_stable) (auto simp: compareRows_pos hasSortKey_def Let_def strictEq_Undefined)
  from split stable show ?thesis by simp
qed

lemma placement_desc:
  assumes "direction \<noteq> Undefined" "direction \<noteq> Str ''asc''"
  shows "stableSort (compareRows proto refEq lt key direction) rows
       = filter (\<lambda>r. \<not> hasSortKey proto key r) rows
         @ filter (hasSortKey proto key) (stableSort (compareRows proto refEq lt key direction) rows)"
proof -
  let ?cmp = "compareRows proto refEq lt key direction"
  let ?Q = "hasSortKey proto key"
  have split: "stableSort ?cmp rows
                 = filter (\<lambda>y. \<not> ?Q y) (stableSort ?cmp rows) @ filter ?Q (stableSort ?cmp rows)"
    using assms by (intro stableSort_split) (auto simp: compareRows_pos hasSortKey_def Let_def)
  have stable: "filter (\<lambda>y. \<not> ?Q y) (stableSort ?cmp rows) = filter (\<lambda>y. \<not> ?Q y) rows"
    by (intro stableSort_stable) (auto simp: compareRows_pos hasSortKey_def Let_def strictEq_Undefined)
  from split stable show ?thesis by simp
qed

lemma same_key_ties:
  assumes c: "consistentOn (compareRows proto refEq lt key direction) rows"
  shows "filter (\<lambda>r. sortKey proto key r = v) (stableSort (compareRows proto refEq lt key direction) rows)
       = filter (\<lambda>r. sortKey proto key r = v) rows"
proof (cases "\<exists>a\<in>set rows. sortKey proto key a = v")
  case False
  then have "filter (\<lambda>r. sortKey proto key r = v) rows = []" by (simp add: filter_empty_conv)
  moreover from False have "filter (\<lambda>r. sortKey proto key r = v)
      (stableSort (compareRows proto refEq lt key direction) rows) = []"
    by (simp add: filter_empty_conv set_stableSort)
  ultimately show ?thesis by simp
next
  case True
  then obtain a where a: "a \<in> set rows" "sortKey proto key a = v" by blast
  let ?cmp = "compareRows proto refEq lt key direction"
  let ?C = "\<lambda>r. ?cmp a r = 0" and ?P = "\<lambda>r. sortKey proto key r = v"
  have pc: "\<And>r. ?P r \<Longrightarrow> ?C r"
    using compareRows_same_keys[of proto key a a _ a refEq lt direction] a(2)
          consistent_refl[OF c a(1)] by metis
  have sub: "\<And>xs. filter ?P (filter ?C xs) = filter ?P xs"
    using pc by (auto intro: filter_cong)
  have "filter ?P (stableSort ?cmp rows) = filter ?P (filter ?C (stableSort ?cmp rows))"
    by (simp only: sub)
  also have "\<dots> = filter ?P (filter ?C rows)" by (simp only: stableSort_classes[OF c a(1)])
  also have "\<dots> = filter ?P rows" by (simp only: sub)
  finally show ?thesis .
qed

lemma orderRows_Some:
  "orderRows proto refEq lt key direction rows = Some ys \<longleftrightarrow>
     consistentOn (compareRows proto refEq lt key direction) rows
     \<and> ys = stableSort (compareRows proto refEq lt key direction) rows"
  by (auto simp: orderRows_def jsSort_def)

text \<open>
  C5. The rows in the order of \<open>orderBy\<close>. The language fixes the result of the sort
  where the comparator is consistent on the rows, which is the case when \<open><\<close> is a strict
  weak order on the defined sort keys and \<open>===\<close> holds only between keys it does not
  separate, as for keys that are numbers other than \<open>NaN\<close>. Then the direction decides on
  which side a row without a sort key lands: in ascending order (the default) the rows
  with a key come first and the rows without one follow in their input order; in
  descending order the rows without a key come first, in their input order. In both
  directions the rows are in the order of the comparator, rows that compare equal keep
  their input order, so do the rows with one and the same key value, and the result has
  the rows of the input. These properties fix the result: it is the only arrangement of
  the rows that is in the order of the comparator and keeps the input order among rows
  that compare equal. Where the comparator is not consistent, as with a \<open>NaN\<close> key among
  numbers, the order is the implementation's.
\<close>

theorem query_order_undefined_keys:
  "(orderRows proto refEq lt key direction rows = Some ys \<longrightarrow>
      ((direction = Undefined \<or> direction = Str ''asc'') \<longrightarrow>
         ys = filter (hasSortKey proto key) ys @ filter (\<lambda>r. \<not> hasSortKey proto key r) rows)
      \<and> ((direction \<noteq> Undefined \<and> direction \<noteq> Str ''asc'') \<longrightarrow>
         ys = filter (\<lambda>r. \<not> hasSortKey proto key r) rows @ filter (hasSortKey proto key) ys)
      \<and> sorted_wrt (\<lambda>a b. compareRows proto refEq lt key direction a b \<le> 0) ys
      \<and> (\<forall>a\<in>set rows. filter (\<lambda>r. compareRows proto refEq lt key direction a r = 0) ys
                         = filter (\<lambda>r. compareRows proto refEq lt key direction a r = 0) rows)
      \<and> filter (\<lambda>r. sortKey proto key r = v) ys = filter (\<lambda>r. sortKey proto key r = v) rows
      \<and> set ys = set rows \<and> length ys = length rows)
   \<and> (orderRows proto refEq lt key direction rows \<noteq> None
        \<longleftrightarrow> consistentOn (compareRows proto refEq lt key direction) rows)
   \<and> (consistentOn (compareRows proto refEq lt key direction) rows \<and> set zs \<subseteq> set rows
        \<and> sorted_wrt (\<lambda>a b. compareRows proto refEq lt key direction a b \<le> 0) zs
        \<and> (\<forall>a\<in>set rows. filter (\<lambda>r. compareRows proto refEq lt key direction a r = 0) zs
                           = filter (\<lambda>r. compareRows proto refEq lt key direction a r = 0) rows) \<longrightarrow>
      orderRows proto refEq lt key direction rows = Some zs)
   \<and> (keyOrderOn refEq lt (definedKeys proto key rows) \<longrightarrow>
      consistentOn (compareRows proto refEq lt key direction) rows)
   \<and> ((\<forall>r\<in>set rows. sortKey proto key r = Undefined
                      \<or> (\<exists>x. sortKey proto key r = Num x \<and> x \<noteq> NaN)) \<longrightarrow>
      keyOrderOn refEq lessOnNumbers (definedKeys proto key rows))
   \<and> orderRows ownOnly (\<lambda>a b. False) lessOnNumbers ''val'' (Str ''asc'')
        [Obj [(''val'', Num (Fin 1))], Obj [(''val'', Num NaN)], Obj [(''val'', Num (Fin 2))]] = None"
proof -
  let ?cmp = "compareRows proto refEq lt key direction"
  have a: "orderRows proto refEq lt key direction rows = Some ys \<longrightarrow>
      ((direction = Undefined \<or> direction = Str ''asc'') \<longrightarrow>
         ys = filter (hasSortKey proto key) ys @ filter (\<lambda>r. \<not> hasSortKey proto key r) rows)
      \<and> ((direction \<noteq> Undefined \<and> direction \<noteq> Str ''asc'') \<longrightarrow>
         ys = filter (\<lambda>r. \<not> hasSortKey proto key r) rows @ filter (hasSortKey proto key) ys)
      \<and> sorted_wrt (\<lambda>a b. ?cmp a b \<le> 0) ys
      \<and> (\<forall>a\<in>set rows. filter (\<lambda>r. ?cmp a r = 0) ys = filter (\<lambda>r. ?cmp a r = 0) rows)
      \<and> filter (\<lambda>r. sortKey proto key r = v) ys = filter (\<lambda>r. sortKey proto key r = v) rows
      \<and> set ys = set rows \<and> length ys = length rows"
  proof
    assume "orderRows proto refEq lt key direction rows = Some ys"
    then have c: "consistentOn ?cmp rows" and ys: "ys = stableSort ?cmp rows"
      by (simp_all add: orderRows_Some)
    have p1: "(direction = Undefined \<or> direction = Str ''asc'') \<longrightarrow>
         ys = filter (hasSortKey proto key) ys @ filter (\<lambda>r. \<not> hasSortKey proto key r) rows"
      unfolding ys using placement_asc[of direction proto refEq lt key rows] by blast
    have p2: "(direction \<noteq> Undefined \<and> direction \<noteq> Str ''asc'') \<longrightarrow>
         ys = filter (\<lambda>r. \<not> hasSortKey proto key r) rows @ filter (hasSortKey proto key) ys"
      unfolding ys using placement_desc[of direction proto refEq lt key rows] by blast
    have p3: "sorted_wrt (\<lambda>a b. ?cmp a b \<le> 0) ys"
      unfolding ys by (rule sorted_stableSort[OF c])
    have p4: "\<forall>a\<in>set rows. filter (\<lambda>r. ?cmp a r = 0) ys = filter (\<lambda>r. ?cmp a r = 0) rows"
      unfolding ys using stableSort_classes[OF c] by blast
    have p5: "filter (\<lambda>r. sortKey proto key r = v) ys = filter (\<lambda>r. sortKey proto key r = v) rows"
      unfolding ys by (rule same_key_ties[OF c])
    have p6: "set ys = set rows \<and> length ys = length rows"
      unfolding ys by (simp add: set_stableSort length_stableSort)
    from p1 p2 p3 p4 p5 p6 show
      "((direction = Undefined \<or> direction = Str ''asc'') \<longrightarrow>
         ys = filter (hasSortKey proto key) ys @ filter (\<lambda>r. \<not> hasSortKey proto key r) rows)
      \<and> ((direction \<noteq> Undefined \<and> direction \<noteq> Str ''asc'') \<longrightarrow>
         ys = filter (\<lambda>r. \<not> hasSortKey proto key r) rows @ filter (hasSortKey proto key) ys)
      \<and> sorted_wrt (\<lambda>a b. ?cmp a b \<le> 0) ys
      \<and> (\<forall>a\<in>set rows. filter (\<lambda>r. ?cmp a r = 0) ys = filter (\<lambda>r. ?cmp a r = 0) rows)
      \<and> filter (\<lambda>r. sortKey proto key r = v) ys = filter (\<lambda>r. sortKey proto key r = v) rows
      \<and> set ys = set rows \<and> length ys = length rows"
      by blast
  qed
  have b: "orderRows proto refEq lt key direction rows \<noteq> None \<longleftrightarrow> consistentOn ?cmp rows"
    by (simp add: orderRows_def jsSort_def)
  have c: "consistentOn ?cmp rows \<and> set zs \<subseteq> set rows
        \<and> sorted_wrt (\<lambda>a b. ?cmp a b \<le> 0) zs
        \<and> (\<forall>a\<in>set rows. filter (\<lambda>r. ?cmp a r = 0) zs = filter (\<lambda>r. ?cmp a r = 0) rows) \<longrightarrow>
      orderRows proto refEq lt key direction rows = Some zs"
    unfolding orderRows_def using jsSort_unique[of ?cmp rows zs] by blast
  have d: "keyOrderOn refEq lt (definedKeys proto key rows) \<longrightarrow> consistentOn ?cmp rows"
    using compareRows_consistent[of refEq lt proto key rows direction] by blast
  have e: "(\<forall>r\<in>set rows. sortKey proto key r = Undefined
                      \<or> (\<exists>x. sortKey proto key r = Num x \<and> x \<noteq> NaN)) \<longrightarrow>
      keyOrderOn refEq lessOnNumbers (definedKeys proto key rows)"
  proof
    assume h: "\<forall>r\<in>set rows. sortKey proto key r = Undefined
                      \<or> (\<exists>x. sortKey proto key r = Num x \<and> x \<noteq> NaN)"
    have "\<forall>k\<in>set (definedKeys proto key rows). \<exists>x. k = Num x \<and> x \<noteq> NaN"
      using h by (auto simp: definedKeys_def)
    then show "keyOrderOn refEq lessOnNumbers (definedKeys proto key rows)"
      by (rule keyOrderOn_numbers)
  qed
  have f: "orderRows ownOnly (\<lambda>a b. False) lessOnNumbers ''val'' (Str ''asc'')
        [Obj [(''val'', Num (Fin 1))], Obj [(''val'', Num NaN)], Obj [(''val'', Num (Fin 2))]] = None"
    by code_simp
  show ?thesis by (intro conjI a b c d e f)
qed

text \<open>
  In descending order a row whose key is \<open>undefined\<close> is placed before the rows with
  keys 10 and 5.
\<close>

theorem query_order_desc_counterexample:
  "orderRows ownOnly (\<lambda>a b. False) lessOnNumbers ''val'' (Str ''desc'')
     [Obj [(''val'', Num (Fin 10))], Obj [(''val'', Undefined)], Obj [(''val'', Num (Fin 5))]]
   = Some [Obj [(''val'', Undefined)], Obj [(''val'', Num (Fin 10))], Obj [(''val'', Num (Fin 5))]]"
  by code_simp

theorem query_order_undefined_keys_witness:
  "orderRows ownOnly (\<lambda>a b. False) lessOnNumbers ''val'' (Str ''asc'') scoreRows
     = Some [scoreRow (Num (Fin 5)) 3, scoreRow (Num (Fin 10)) 1, scoreRow (Num (Fin 10)) 4,
             scoreRow Undefined 2]
   \<and> [scoreRow (Num (Fin 5)) 3, scoreRow (Num (Fin 10)) 1, scoreRow (Num (Fin 10)) 4,
       scoreRow Undefined 2]
     = filter (hasSortKey ownOnly ''val'')
         [scoreRow (Num (Fin 5)) 3, scoreRow (Num (Fin 10)) 1, scoreRow (Num (Fin 10)) 4,
          scoreRow Undefined 2]
       @ filter (\<lambda>r. \<not> hasSortKey ownOnly ''val'' r) scoreRows
   \<and> orderRows ownOnly (\<lambda>a b. False) lessOnNumbers ''val'' (Str ''desc'') scoreRows
     = Some [scoreRow Undefined 2, scoreRow (Num (Fin 10)) 1, scoreRow (Num (Fin 10)) 4,
             scoreRow (Num (Fin 5)) 3]
   \<and> [scoreRow Undefined 2, scoreRow (Num (Fin 10)) 1, scoreRow (Num (Fin 10)) 4,
       scoreRow (Num (Fin 5)) 3]
     = filter (\<lambda>r. \<not> hasSortKey ownOnly ''val'' r) scoreRows
       @ filter (hasSortKey ownOnly ''val'')
           [scoreRow Undefined 2, scoreRow (Num (Fin 10)) 1, scoreRow (Num (Fin 10)) 4,
            scoreRow (Num (Fin 5)) 3]
   \<and> filter (\<lambda>r. sortKey ownOnly ''val'' r = Num (Fin 10))
        [scoreRow Undefined 2, scoreRow (Num (Fin 10)) 1, scoreRow (Num (Fin 10)) 4,
         scoreRow (Num (Fin 5)) 3]
     = filter (\<lambda>r. sortKey ownOnly ''val'' r = Num (Fin 10)) scoreRows"
proof -
  let ?F = "\<lambda>(a::jsval) (b::jsval). False"
  let ?up = "[scoreRow (Num (Fin 5)) 3, scoreRow (Num (Fin 10)) 1, scoreRow (Num (Fin 10)) 4,
              scoreRow Undefined 2]"
  let ?down = "[scoreRow Undefined 2, scoreRow (Num (Fin 10)) 1, scoreRow (Num (Fin 10)) 4,
                scoreRow (Num (Fin 5)) 3]"
  let ?asc = "compareRows ownOnly ?F lessOnNumbers ''val'' (Str ''asc'')"
  let ?desc = "compareRows ownOnly ?F lessOnNumbers ''val'' (Str ''desc'')"
  note up = query_order_undefined_keys[where proto=ownOnly and refEq="?F" and lt=lessOnNumbers
      and key="''val''" and direction="Str ''asc''" and rows=scoreRows]
  note down = query_order_undefined_keys[where proto=ownOnly and refEq="?F" and lt=lessOnNumbers
      and key="''val''" and direction="Str ''desc''" and rows=scoreRows]
  have keys: "map (sortKey ownOnly ''val'') scoreRows
                = [Num (Fin 10), Undefined, Num (Fin 5), Num (Fin 10)]"
    by code_simp
  have num: "\<forall>r\<in>set scoreRows. sortKey ownOnly ''val'' r = Undefined
                      \<or> (\<exists>x. sortKey ownOnly ''val'' r = Num x \<and> x \<noteq> NaN)"
  proof -
    have "\<forall>k\<in>set (map (sortKey ownOnly ''val'') scoreRows). k = Undefined \<or> (\<exists>x. k = Num x \<and> x \<noteq> NaN)"
      unfolding keys by simp
    then show ?thesis by simp
  qed
  from up[THEN conjunct2, THEN conjunct2, THEN conjunct2, THEN conjunct2, THEN conjunct1] num
  have ko: "keyOrderOn ?F lessOnNumbers (definedKeys ownOnly ''val'' scoreRows)" by blast
  from up[THEN conjunct2, THEN conjunct2, THEN conjunct2, THEN conjunct1] ko
  have cu: "consistentOn ?asc scoreRows" by blast
  from down[THEN conjunct2, THEN conjunct2, THEN conjunct2, THEN conjunct1] ko
  have cd: "consistentOn ?desc scoreRows" by blast
  have su: "set ?up \<subseteq> set scoreRows \<and> sorted_wrt (\<lambda>a b. ?asc a b \<le> 0) ?up
            \<and> (\<forall>a\<in>set scoreRows. filter (\<lambda>r. ?asc a r = 0) ?up = filter (\<lambda>r. ?asc a r = 0) scoreRows)"
    by code_simp
  have sd: "set ?down \<subseteq> set scoreRows \<and> sorted_wrt (\<lambda>a b. ?desc a b \<le> 0) ?down
            \<and> (\<forall>a\<in>set scoreRows. filter (\<lambda>r. ?desc a r = 0) ?down = filter (\<lambda>r. ?desc a r = 0) scoreRows)"
    by code_simp
  from up[where zs="?up", THEN conjunct2, THEN conjunct2, THEN conjunct1] cu su
  have ru: "orderRows ownOnly ?F lessOnNumbers ''val'' (Str ''asc'') scoreRows = Some ?up" by blast
  from down[where zs="?down", THEN conjunct2, THEN conjunct2, THEN conjunct1] cd sd
  have rd: "orderRows ownOnly ?F lessOnNumbers ''val'' (Str ''desc'') scoreRows = Some ?down" by blast
  from up[where ys="?up", THEN conjunct1] ru
  have pu: "?up = filter (hasSortKey ownOnly ''val'') ?up
                   @ filter (\<lambda>r. \<not> hasSortKey ownOnly ''val'' r) scoreRows"
    by blast
  have dir: "Str ''desc'' \<noteq> Undefined \<and> Str ''desc'' \<noteq> Str ''asc''" by simp
  from down[where ys="?down" and v="Num (Fin 10)", THEN conjunct1] rd dir
  have pd: "?down = filter (\<lambda>r. \<not> hasSortKey ownOnly ''val'' r) scoreRows
                     @ filter (hasSortKey ownOnly ''val'') ?down"
    and td: "filter (\<lambda>r. sortKey ownOnly ''val'' r = Num (Fin 10)) ?down
               = filter (\<lambda>r. sortKey ownOnly ''val'' r = Num (Fin 10)) scoreRows"
    by blast+
  from ru pu rd pd td show ?thesis by blast
qed

section \<open>Properties of the guard evaluator\<close>




lemma guardsEvery_first_error:
  "executeGuard h g cb ctx = (evs, Inl e) \<Longrightarrow> guardsEvery h (g # gs) cb ctx = (evs, Inl e)"
  by simp









section \<open>Properties of the condition join\<close>

lemma yielded_thenResult:
  "set (yielded (thenResult r1 r2)) \<subseteq> set (yielded r1) \<union> set (yielded r2)"
  by (auto simp: thenResult_def split: option.splits)

lemma yielded_tryCandidate:
  "a \<in> set (yielded (tryCandidate h ri gs f pf cb c k)) \<Longrightarrow>
   a \<in> set (yielded (k cb (addConsumed c (consumedId f pf))))"
  by (auto simp: tryCandidate_def Let_def split: prod.splits sum.splits if_splits)

lemma yielded_patternLoop:
  "a \<in> set (yielded (patternLoop h d ri alias pat gs b c k fs)) \<Longrightarrow>
   \<exists>f\<in>set fs. \<exists>mr. match (hcall h) d pat (plainFact f) b = Some mr \<and> isMatch mr
      \<and> a \<in> set (yielded (k (bindAlias alias (plainFact f) (bindings mr))
                               (addConsumed c (consumedId f (plainFact f)))))"
proof (induction fs)
  case Nil
  then show ?case by (simp add: noResult_def)
next
  case (Cons f fs)
  show ?case
  proof (cases "match (hcall h) d pat (plainFact f) b")
    case None
    with Cons.prems show ?thesis by simp
  next
    case (Some mr)
    let ?here = "if isMatch mr
             then tryCandidate h ri gs f (plainFact f) (bindAlias alias (plainFact f) (bindings mr)) c k
             else noResult"
    from Cons.prems Some have "a \<in> set (yielded (thenResult ?here (patternLoop h d ri alias pat gs b c k fs)))"
      by simp
    with yielded_thenResult have "a \<in> set (yielded ?here) \<or> a \<in> set (yielded (patternLoop h d ri alias pat gs b c k fs))"
      by blast
    then show ?thesis
    proof
      assume h: "a \<in> set (yielded ?here)"
      then have m: "isMatch mr" by (auto simp: noResult_def split: if_splits)
      with h have "a \<in> set (yielded (k (bindAlias alias (plainFact f) (bindings mr))
                               (addConsumed c (consumedId f (plainFact f)))))"
        by (simp add: yielded_tryCandidate)
      with Some m show ?thesis by auto
    next
      assume "a \<in> set (yielded (patternLoop h d ri alias pat gs b c k fs))"
      from Cons.IH[OF this] show ?thesis by auto
    qed
  qed
qed

lemma addConsumed_mono: "c \<subseteq> addConsumed c v"
  by (auto simp: addConsumed_def split: option.splits)

lemma checkRule_consumed_mono:
  "a \<in> set (yielded (checkRule h d accs st r conds b c)) \<Longrightarrow> c \<subseteq> consumedFactIds a"
proof (induction conds arbitrary: b c)
  case Nil
  then show ?case by simp
next
  case (Cons cond conds)
  show ?case
  proof (cases cond)
    case (Lacks po)
    with Cons.prems Cons.IH show ?thesis
      by (auto simp: noResult_def split: option.splits if_splits)
  next
    case (Accumulator po name field into)
    with Cons.prems Cons.IH show ?thesis
      by (auto split: option.splits)
  next
    case (Pattern po gs)
    with Cons.prems have
      "a \<in> set (yielded (patternLoop h d (rid r) (firstKey po) (firstValue po) gs b c
              (checkRule h d accs st r conds)
              (getFactsByType st (typeToQuery (firstKey po) (firstValue po)))))"
      by (auto simp: Let_def split: if_splits)
    from yielded_patternLoop[OF this] obtain f and mr :: mres where
      "a \<in> set (yielded (checkRule h d accs st r conds (bindAlias (firstKey po) (plainFact f) (bindings mr))
                               (addConsumed c (consumedId f (plainFact f)))))"
      by auto
    from Cons.IH[OF this] addConsumed_mono[of c] show ?thesis by blast
  qed
qed

lemma checkRule_consumed_frame:
  "a \<in> set (yielded (checkRule h d accs st r conds b c)) \<Longrightarrow>
   \<forall>cond\<in>set conds. \<not> isPattern cond \<Longrightarrow> consumedFactIds a = c"
proof (induction conds arbitrary: b c)
  case Nil
  then show ?case by simp
next
  case (Cons cond conds)
  show ?case
  proof (cases cond)
    case (Lacks po)
    with Cons.prems Cons.IH show ?thesis
      by (auto simp: noResult_def split: option.splits if_splits)
  next
    case (Accumulator po name field into)
    with Cons.prems Cons.IH show ?thesis
      by (auto split: option.splits)
  next
    case (Pattern po gs)
    with Cons.prems show ?thesis by (simp add: isPattern_def)
  qed
qed

lemma checkRule_pattern_adds:
  assumes "a \<in> set (yielded (checkRule h d accs st r (Pattern po gs # conds) b c))"
  shows "\<exists>f\<in>set (getFactsByType st (typeToQuery (firstKey po) (firstValue po))).
           \<exists>mr. match (hcall h) d (firstValue po) (plainFact f) b = Some mr \<and> isMatch mr
             \<and> addConsumed c (consumedId f (plainFact f)) \<subseteq> consumedFactIds a"
proof -
  from assms have
      "a \<in> set (yielded (patternLoop h d (rid r) (firstKey po) (firstValue po) gs b c
              (checkRule h d accs st r conds)
              (getFactsByType st (typeToQuery (firstKey po) (firstValue po)))))"
      by (auto simp: Let_def split: if_splits)
  from yielded_patternLoop[OF this] obtain f and mr :: mres where
    f: "f \<in> set (getFactsByType st (typeToQuery (firstKey po) (firstValue po)))"
       "match (hcall h) d (firstValue po) (plainFact f) b = Some mr" "isMatch mr"
       "a \<in> set (yielded (checkRule h d accs st r conds (bindAlias (firstKey po) (plainFact f) (bindings mr))
                               (addConsumed c (consumedId f (plainFact f)))))"
    by auto
  from checkRule_consumed_mono[OF f(4)] f(1,2,3) show ?thesis by blast
qed

lemma checkRule_lacks:
  "anyMatch (match (hcall h) d) (firstValue po) b (getFactsByType st (firstKey po)) = Some False \<Longrightarrow>
   checkRule h d accs st r (Lacks po # conds) b c = checkRule h d accs st r conds b c"
  by simp

lemma checkRule_accumulator:
  "sourceFacts (match (hcall h) d) (firstValue po) b (getFactsByType st (firstKey po)) = Some fs \<Longrightarrow>
   accs name field fs = Some result \<Longrightarrow>
   checkRule h d accs st r (Accumulator po name field into # conds) b c
     = checkRule h d accs st r conds (setProp b into result) c"
  by simp


lemma idOfValue_idValue: "idOfValue (idValue n) = Some n"
  by (simp add: idOfValue_def idValue_def)

lemma addConsumed_stored:
  "getProp f ''_id'' = idValue n \<Longrightarrow> addConsumed c (consumedId f pf) = insert n c"
  by (simp add: addConsumed_def consumedId_def idOfValue_idValue) (simp add: idValue_def)

text \<open>
  C8. In the join, a Lacks condition that no fact matches hands the bindings and the
  consumed set on to the remaining conditions as they are; an Accumulator condition
  binds its target variable, leaves every other binding alone and hands the consumed set
  on as it is. Every yielded activation's consumed set contains the set the join started
  with, and is that set when no condition of the list is a pattern condition. A pattern
  condition adds the identity of the fact it matched: an activation yielded through it has
  in its consumed set the starting set with the \<open>_id\<close> of a matching fact of the queried
  type.
\<close>

theorem join_consumed_frame:
  "(anyMatch (match (hcall h) d) (firstValue po) b (getFactsByType st (firstKey po)) = Some False \<longrightarrow>
      checkRule h d accs st r (Lacks po # conds) b c = checkRule h d accs st r conds b c)
   \<and> (sourceFacts (match (hcall h) d) (firstValue po) b (getFactsByType st (firstKey po)) = Some fs
        \<and> accs name field fs = Some result \<longrightarrow>
      checkRule h d accs st r (Accumulator po name field into # conds) b c
        = checkRule h d accs st r conds (setProp b into result) c
      \<and> (\<forall>k. k \<noteq> into \<longrightarrow> getProp (setProp b into result) k = getProp b k))
   \<and> (a \<in> set (yielded (checkRule h d accs st r conds b c)) \<longrightarrow>
      c \<subseteq> consumedFactIds a
      \<and> ((\<forall>cond\<in>set conds. \<not> isPattern cond) \<longrightarrow> consumedFactIds a = c))
   \<and> (a \<in> set (yielded (checkRule h d accs st r (Pattern po gs # conds) b c)) \<longrightarrow>
      (\<exists>f\<in>set (getFactsByType st (typeToQuery (firstKey po) (firstValue po))).
         \<exists>mr. match (hcall h) d (firstValue po) (plainFact f) b = Some mr \<and> isMatch mr
           \<and> addConsumed c (consumedId f (plainFact f)) \<subseteq> consumedFactIds a))
   \<and> (getProp f ''_id'' = idValue n \<longrightarrow> addConsumed c (consumedId f pf) = insert n c)"
  using checkRule_lacks[of h d po b st accs r conds c]
        checkRule_accumulator[of h d po b st fs accs name field result r into conds c]
        checkRule_consumed_mono[of a h d accs st r conds b c]
        checkRule_consumed_frame[of a h d accs st r conds b c]
        checkRule_pattern_adds[of a h d accs st r po gs conds b c]
        addConsumed_stored[of f n c pf]
        getProp_setProp_other[of _ into b result]
  by blast


text \<open>The definitions unfolded to evaluate the join on the example store.\<close>

lemmas join_eval =
  exampleHost_def flagStore_def countOnly_def plainRule_def getFactsByType_def firstKey_def
  firstValue_def getProp_def setProp_def plainFact_def noResult_def thenResult_def
  tryCandidate_def bindAlias_def typeToQuery_def nullish_def addConsumed_def consumedId_def
  idOfValue_def startsWith_def isPattern_def Let_def

theorem join_consumed_frame_witness:
  "anyMatch (match (hcall exampleHost) 3) (firstValue [(''nothing'', Obj [])]) []
       (getFactsByType flagStore (firstKey [(''nothing'', Obj [])])) = Some False
   \<and> checkRule exampleHost 3 countOnly flagStore (plainRule ''q'')
        [Lacks [(''nothing'', Obj [])], Accumulator [(''flag'', Obj [])] ''count'' Undefined ''?n''] [] {}
      = checkRule exampleHost 3 countOnly flagStore (plainRule ''q'')
        [Accumulator [(''flag'', Obj [])] ''count'' Undefined ''?n''] [] {}
   \<and> checkRule exampleHost 3 countOnly flagStore (plainRule ''q'')
        [Accumulator [(''flag'', Obj [])] ''count'' Undefined ''?n''] [] {}
      = checkRule exampleHost 3 countOnly flagStore (plainRule ''q'') [] [(''?n'', Num (Fin 1))] {}
   \<and> yielded (checkRule exampleHost 3 countOnly flagStore (plainRule ''q'')
        [Lacks [(''nothing'', Obj [])], Accumulator [(''flag'', Obj [])] ''count'' Undefined ''?n''] [] {})
      = [\<lparr>rule = plainRule ''q'', abindings = [(''?n'', Num (Fin 1))], consumedFactIds = {}\<rparr>]
   \<and> yielded (checkRule exampleHost 3 countOnly flagStore (plainRule ''q'')
        [Pattern [(''flag'', Obj [])] []] [] {})
      = [\<lparr>rule = plainRule ''q'',
          abindings = [(''flag'', Obj [(''type'', Str ''flag''), (''_id'', Num (Fin 1))]),
                       (''?flag'', Obj [(''type'', Str ''flag''), (''_id'', Num (Fin 1))])],
          consumedFactIds = {1}\<rparr>]"
  using join_consumed_frame[of exampleHost 3 "[(''nothing'', Obj [])]" "[]" flagStore countOnly
          "plainRule ''q''" "[Accumulator [(''flag'', Obj [])] ''count'' Undefined ''?n'']" "{}"
          "[]" "''count''" Undefined "Num (Fin 0)" "''?n''"
          "\<lparr>rule = plainRule ''q'', abindings = [(''?n'', Num (Fin 1))], consumedFactIds = {}\<rparr>"
          "[]" "[(''type'', Str ''flag''), (''_id'', Num (Fin 1))]" 1 "Obj []"]
        join_consumed_frame[of exampleHost 3 "[(''flag'', Obj [])]" "[]" flagStore countOnly
          "plainRule ''q''" "[]" "{}"
          "[Obj [(''type'', Str ''flag''), (''_id'', Num (Fin 1))]]" "''count''" Undefined "Num (Fin 1)" "''?n''"
          "\<lparr>rule = plainRule ''q'',
            abindings = [(''flag'', Obj [(''type'', Str ''flag''), (''_id'', Num (Fin 1))]),
                       (''?flag'', Obj [(''type'', Str ''flag''), (''_id'', Num (Fin 1))])],
            consumedFactIds = {1}\<rparr>"
          "[]" "[(''type'', Str ''flag''), (''_id'', Num (Fin 1))]" 1 "Obj []"]
  by (simp add: join_eval numeral_3_eq_3)

section \<open>Properties of truth maintenance\<close>





























section \<open>What every step of the engine keeps\<close>



lemma idValue_inject: "idValue a = idValue b \<longleftrightarrow> a = b"
  by (simp add: idValue_def)



































section \<open>A drain of retract tasks ends\<close>









section \<open>Truth maintenance over a run\<close>







end
